theory Spec2Isabelle
  imports Complex_Main "HOL-Library.Word"
begin

section \<open>Graph store (graph.h, graph.c)\<close>

text \<open>
  The C structures are records.  A \<^verbatim>\<open>double\<close> that the data holds (a coordinate, a
  length, a speed, a travel time, a cost) is idealised to a real number: no rounding and no
  NaN.  \<^verbatim>\<open>DBL_MAX\<close> is the real number it denotes.  The values that the search only compares
  and never computes with again, the heuristic and the \<open>f\<close> score, can be \<open>+inf\<close> in C when
  an operation overflows: there \<open>+inf\<close> is the real number \<open>INFINITY\<close>, above every double, and
  an operation overflows when its exact result is above \<^verbatim>\<open>DBL_MAX\<close>.  Node and edge ids are
  C \<^verbatim>\<open>int\<close>s that are only compared and used as indices, so they are integers; the
  only C \<^verbatim>\<open>int\<close> that is incremented without a bound, \<^verbatim>\<open>observation_count\<close>, is a 32-bit
  word.  Arrays are stores from indices to values; the linked adjacency list of a node is
  the list of its edge ids, head first.  The coordinates \<^verbatim>\<open>x\<close>, \<^verbatim>\<open>y\<close> of a node are the
  fields \<open>node_x\<close>, \<open>node_y\<close>.
\<close>

record Edge =
  edge_id :: int
  from_node :: int
  to_node :: int
  base_length :: real
  base_speed_limit :: real
  current_travel_time :: real
  ema_travel_time :: real
  observation_count :: "32 word"

record Node =
  node_id :: int
  node_x :: real
  node_y :: real
  out_edges :: "int list"

record Graph =
  nodes :: "int \<Rightarrow> Node"
  edges :: "int \<Rightarrow> Edge"
  num_nodes :: int
  num_edges :: int

definition MAX_NODES :: int where
  "MAX_NODES = 100000"

definition DBL_MAX :: real where
  "DBL_MAX = (2 ^ 53 - 1) * 2 ^ 971"

text \<open>
  \<^verbatim>\<open>graph_init\<close>: \<open>None\<close> is \<^verbatim>\<open>exit(1)\<close>.  The edge table comes from \<^verbatim>\<open>malloc\<close> and is
  not initialised: its content is the parameter \<open>raw\<close>.  Nodes at or beyond \<open>num_nodes\<close>
  keep what the structure held before.
\<close>

definition graph_init :: "Graph \<Rightarrow> (int \<Rightarrow> Edge) \<Rightarrow> int \<Rightarrow> int \<Rightarrow> Graph option" where
  "graph_init g raw n m =
     (if n > MAX_NODES then None
      else Some \<lparr> nodes = (\<lambda>i. if 0 \<le> i \<and> i < n
                                  then \<lparr> node_id = i, node_x = 0, node_y = 0, out_edges = [] \<rparr>
                                  else nodes g i),
                  edges = raw, num_nodes = n, num_edges = m \<rparr>)"

definition graph_set_node_coordinates :: "Graph \<Rightarrow> int \<Rightarrow> real \<Rightarrow> real \<Rightarrow> Graph option" where
  "graph_set_node_coordinates g i px py =
     (if i < 0 \<or> i \<ge> num_nodes g then None
      else Some (g\<lparr> nodes := (nodes g)(i := (nodes g i)\<lparr> node_x := px, node_y := py \<rparr>) \<rparr>))"

definition graph_add_edge :: "Graph \<Rightarrow> int \<Rightarrow> int \<Rightarrow> int \<Rightarrow> real \<Rightarrow> real \<Rightarrow> Graph option" where
  "graph_add_edge g eid from to len speed_limit =
     (if eid < 0 \<or> eid \<ge> num_edges g then None
      else if from < 0 \<or> from \<ge> num_nodes g \<or> to < 0 \<or> to \<ge> num_nodes g then None
      else if speed_limit \<le> 0 then None
      else Some (g\<lparr> edges := (edges g)(eid :=
                        \<lparr> edge_id = eid, from_node = from, to_node = to,
                          base_length = len, base_speed_limit = speed_limit,
                          current_travel_time = len / speed_limit,
                          ema_travel_time = len / speed_limit,
                          observation_count = 0 \<rparr>),
                    nodes := (nodes g)(from := (nodes g from)
                        \<lparr> out_edges := eid # out_edges (nodes g from) \<rparr>) \<rparr>))"

text \<open>\<^verbatim>\<open>get_edge_weight\<close>: \<open>None\<close> is \<^verbatim>\<open>exit(1)\<close>.\<close>

definition get_edge_weight :: "Graph \<Rightarrow> int \<Rightarrow> real option" where
  "get_edge_weight g eid =
     (if eid < 0 \<or> eid \<ge> num_edges g then None
      else Some (current_travel_time (edges g eid)))"

text \<open>The loop of \<^verbatim>\<open>heuristic\<close> that finds the largest base speed limit, from \<open>0.0\<close>.\<close>

fun max_speed_loop :: "Graph \<Rightarrow> nat \<Rightarrow> real" where
  "max_speed_loop g 0 = 0"
| "max_speed_loop g (Suc i) =
     (let m = max_speed_loop g i
      in if base_speed_limit (edges g (int i)) > m then base_speed_limit (edges g (int i)) else m)"

definition INFINITY :: real where
  "INFINITY = 2 ^ 1024"

text \<open>
  \<^verbatim>\<open>heuristic\<close>: \<open>None\<close> is \<^verbatim>\<open>exit(1)\<close>.  When \<open>dx\<close>, \<open>dx * dx\<close>, \<open>dy * dy\<close> or their sum
  overflows, the exact sum of the squares is above \<^verbatim>\<open>DBL_MAX\<close>, the square root is \<open>+inf\<close> and
  so is the result; the quotient by the largest speed limit can overflow as well.
\<close>

definition heuristic :: "Graph \<Rightarrow> int \<Rightarrow> int \<Rightarrow> real option" where
  "heuristic g u v =
     (if u < 0 \<or> u \<ge> num_nodes g \<or> v < 0 \<or> v \<ge> num_nodes g then None
      else let dx = node_x (nodes g u) - node_x (nodes g v);
               dy = node_y (nodes g u) - node_y (nodes g v);
               straight_dist = (if dx * dx + dy * dy > DBL_MAX then INFINITY
                                else sqrt (dx * dx + dy * dy));
               max_speed = max_speed_loop g (nat (num_edges g))
           in if max_speed > 0
              then Some (if straight_dist = INFINITY \<or> straight_dist / max_speed > DBL_MAX
                         then INFINITY else straight_dist / max_speed)
              else Some straight_dist)"

section \<open>Traffic updates (server.c, \<^verbatim>\<open>apply_update\<close>)\<close>

definition NL :: char where
  "NL = CHR 0x0A"

definition min_speed :: real where
  "min_speed = 1 / 1000000"

definition apply_update :: "Graph \<Rightarrow> int \<Rightarrow> real \<Rightarrow> string \<times> Graph" where
  "apply_update g eid speed =
     (if eid < 0 \<or> eid \<ge> num_edges g then (''ERR BAD_EDGE'' @ [NL], g)
      else if speed \<le> 0 then (''ERR BAD_SPEED'' @ [NL], g)
      else
        let speed1 = (if speed < min_speed then min_speed else speed);
            e = edges g eid;
            alpha = (if observation_count e = 0 then 1 else 0.2);
            measured = base_length e / speed1;
            ema = alpha * measured + (1 - alpha) * ema_travel_time e
        in (''ACK'' @ [NL],
            g\<lparr> edges := (edges g)(eid := e\<lparr> ema_travel_time := ema,
                                              current_travel_time := ema,
                                              observation_count := observation_count e + 1 \<rparr>) \<rparr>))"

text \<open>A sequence of \<^verbatim>\<open>UPD\<close> tasks (edge id, speed), applied in order by the traffic workers.\<close>

fun apply_updates :: "Graph \<Rightarrow> (int \<times> real) list \<Rightarrow> Graph" where
  "apply_updates g [] = g"
| "apply_updates g ((eid, speed) # ups) = apply_updates (snd (apply_update g eid speed)) ups"

text \<open>Construction: a sequence of \<^verbatim>\<open>graph_add_edge\<close> calls (id, from, to, length, speed limit).\<close>

fun add_edges :: "Graph \<Rightarrow> (int \<times> int \<times> int \<times> real \<times> real) list \<Rightarrow> Graph option" where
  "add_edges g [] = Some g"
| "add_edges g ((eid, from, to, len, sl) # es) =
     (case graph_add_edge g eid from to len sl of
        None \<Rightarrow> None
      | Some g1 \<Rightarrow> add_edges g1 es)"

text \<open>
  The recurrence of the specification, in its words: the measured time of an observation
  \<open>s\<close> is \<open>base_length / max s 1e-6\<close>; the mixing weight is 1 on the first observation and
  0.2 on every later one.  \<open>ema_spec len first cur ss\<close> is the value after the observations
  \<open>ss\<close>, from the value \<open>cur\<close>; \<open>first\<close> says that no observation has been seen yet.
\<close>

fun ema_spec :: "real \<Rightarrow> bool \<Rightarrow> real \<Rightarrow> real list \<Rightarrow> real" where
  "ema_spec len first cur [] = cur"
| "ema_spec len first cur (s # ss) =
     ema_spec len False
       ((if first then 1 else 0.2) * (len / max s (1 / 1000000))
          + (1 - (if first then 1 else 0.2)) * cur) ss"

definition zero_edge :: Edge where
  "zero_edge = \<lparr> edge_id = 0, from_node = 0, to_node = 0, base_length = 0, base_speed_limit = 0,
       current_travel_time = 0, ema_travel_time = 0, observation_count = 0 \<rparr>"

definition zero_graph :: Graph where
  "zero_graph = \<lparr> nodes = (\<lambda>i. \<lparr> node_id = 0, node_x = 0, node_y = 0, out_edges = [] \<rparr>),
       edges = (\<lambda>i. zero_edge), num_nodes = 0, num_edges = 0 \<rparr>"

fun set_coordinates :: "Graph \<Rightarrow> (int \<times> real \<times> real) list \<Rightarrow> Graph option" where
  "set_coordinates g [] = Some g"
| "set_coordinates g ((i, px, py) # cs) =
     (case graph_set_node_coordinates g i px py of None \<Rightarrow> None
      | Some g1 \<Rightarrow> set_coordinates g1 cs)"

definition build_graph :: "int \<Rightarrow> int \<Rightarrow> (int \<times> real \<times> real) list \<Rightarrow> (int \<times> int \<times> int \<times> real \<times> real) list \<Rightarrow> Graph option" where
  "build_graph n m cs es =
     (case graph_init zero_graph (\<lambda>i. zero_edge) n m of None \<Rightarrow> None
      | Some g \<Rightarrow> (case set_coordinates g cs of None \<Rightarrow> None | Some g1 \<Rightarrow> add_edges g1 es))"

definition edge_bounded :: "Edge \<Rightarrow> bool" where
  "edge_bounded e \<longleftrightarrow> 0 \<le> base_length e \<and> 0 < base_speed_limit e
      \<and> base_length e / base_speed_limit e \<le> ema_travel_time e
      \<and> current_travel_time e = ema_travel_time e"

definition own_speeds :: "int \<Rightarrow> (int \<times> real) list \<Rightarrow> real list" where
  "own_speeds eid ups = map snd (filter (\<lambda>(i, s). i = eid) ups)"

definition one_edge_graph_plain :: Graph where
  "one_edge_graph_plain =
     the (add_edges (the (graph_init zero_graph (\<lambda>i. zero_edge) 2 1)) [(0, 0, 1, 4, 1)])"

definition one_edge_graph :: Graph where
  "one_edge_graph = the (build_graph 2 1 [(0, 0, 0), (1, 4, 0)] [(0, 0, 1, 4, 1)])"

fun repeat_update :: "Graph \<Rightarrow> int \<Rightarrow> real \<Rightarrow> nat \<Rightarrow> Graph" where
  "repeat_update g eid s 0 = g"
| "repeat_update g eid s (Suc k) = snd (apply_update (repeat_update g eid s k) eid s)"

section \<open>Indexed min-heap (min_heap.h, min_heap.c)\<close>

text \<open>
  \<^verbatim>\<open>MinHeapNode\<close> has the fields \<^verbatim>\<open>node_id\<close> (here \<open>heap_node_id\<close>, since \<open>node_id\<close> is the field
  of \<open>Node\<close>) and \<^verbatim>\<open>dist\<close>.  \<^verbatim>\<open>MinHeap\<close> has \<^verbatim>\<open>capacity\<close>, \<^verbatim>\<open>size\<close> (here \<open>heap_size\<close>), the side
  table \<^verbatim>\<open>pos\<close> indexed by node id and \<^verbatim>\<open>array\<close> indexed by heap position.  Sizes and heap
  positions are never negative and are natural numbers.  The C array holds pointers to
  nodes; the slots below \<^verbatim>\<open>size\<close> of a heap whose \<^verbatim>\<open>pos\<close> table is consistent point to distinct
  nodes, and only these slots are read or written through, so the array holds the nodes
  themselves.
\<close>

record MinHeapNode =
  heap_node_id :: int
  dist :: real

record MinHeap =
  capacity :: nat
  heap_size :: nat
  pos :: "int \<Rightarrow> nat"
  array :: "nat \<Rightarrow> MinHeapNode"

text \<open>
  The three statements that \<^verbatim>\<open>minHeapify\<close> and the loop of \<^verbatim>\<open>decreaseKey\<close> share: with
  \<open>a = array[i]\<close> and \<open>b = array[j]\<close>, \<^verbatim>\<open>pos[a->node_id] = j; pos[b->node_id] = i;
  swapMinHeapNode(&array[i], &array[j])\<close>.
\<close>

definition exchange :: "MinHeap \<Rightarrow> nat \<Rightarrow> nat \<Rightarrow> MinHeap" where
  "exchange h i j =
     (let a = array h i; b = array h j;
          p1 = (pos h)(heap_node_id a := j);
          p2 = p1(heap_node_id b := i)
      in h\<lparr> pos := p2, array := (array h)(i := b, j := a) \<rparr>)"

definition smallest_of :: "MinHeap \<Rightarrow> nat \<Rightarrow> nat" where
  "smallest_of h idx =
     (let smallest = idx; left = 2 * idx + 1; right = 2 * idx + 2;
          smallest = (if left < heap_size h \<and> dist (array h left) < dist (array h smallest)
                      then left else smallest);
          smallest = (if right < heap_size h \<and> dist (array h right) < dist (array h smallest)
                      then right else smallest)
      in smallest)"

function minHeapify :: "MinHeap \<Rightarrow> nat \<Rightarrow> MinHeap" where
  "minHeapify h idx =
     (if smallest_of h idx \<noteq> idx
      then minHeapify (exchange h (smallest_of h idx) idx) (smallest_of h idx)
      else h)"
  by pat_completeness auto
termination
proof (relation "measure (\<lambda>(h, idx). heap_size h - idx)")
  show "wf (measure (\<lambda>(h, idx). heap_size h - idx))" by simp
next
  fix h :: MinHeap and idx :: nat
  assume "smallest_of h idx \<noteq> idx"
  then have "idx < smallest_of h idx \<and> smallest_of h idx < heap_size h"
    by (auto simp: smallest_of_def Let_def split: if_splits)
  then show "((exchange h (smallest_of h idx) idx, smallest_of h idx), (h, idx))
      \<in> measure (\<lambda>(h, idx). heap_size h - idx)"
    by (simp add: exchange_def Let_def) arith
qed

declare minHeapify.simps [simp del]

definition isEmpty :: "MinHeap \<Rightarrow> bool" where
  "isEmpty h \<longleftrightarrow> heap_size h = 0"

text \<open>\<^verbatim>\<open>extractMin\<close>: \<open>None\<close> is the \<^verbatim>\<open>NULL\<close> returned on an empty heap.\<close>

definition extractMin :: "MinHeap \<Rightarrow> MinHeapNode option \<times> MinHeap" where
  "extractMin h =
     (if isEmpty h then (None, h)
      else
        let root = array h 0;
            lastNode = array h (heap_size h - 1);
            h1 = h\<lparr> array := (array h)(0 := lastNode) \<rparr>;
            h2 = h1\<lparr> pos := (pos h1)(heap_node_id root := heap_size h1 - 1) \<rparr>;
            h3 = h2\<lparr> pos := (pos h2)(heap_node_id lastNode := 0) \<rparr>;
            h4 = h3\<lparr> heap_size := heap_size h3 - 1 \<rparr>
        in (Some root, minHeapify h4 0))"

text \<open>The \<^verbatim>\<open>while\<close> loop of \<^verbatim>\<open>decreaseKey\<close>, from position \<open>i\<close>.\<close>

function decreaseKey_loop :: "MinHeap \<Rightarrow> nat \<Rightarrow> MinHeap" where
  "decreaseKey_loop h i =
     (if i \<noteq> 0 \<and> dist (array h i) < dist (array h ((i - 1) div 2))
      then decreaseKey_loop (exchange h i ((i - 1) div 2)) ((i - 1) div 2)
      else h)"
  by pat_completeness auto
termination
  by (relation "measure (\<lambda>(h, i). i)") auto

declare decreaseKey_loop.simps [simp del]

definition decreaseKey :: "MinHeap \<Rightarrow> int \<Rightarrow> real \<Rightarrow> MinHeap" where
  "decreaseKey h v d =
     (let i = pos h v;
          h1 = h\<lparr> array := (array h)(i := (array h i)\<lparr> dist := d \<rparr>) \<rparr>
      in decreaseKey_loop h1 i)"

definition isInMinHeap :: "MinHeap \<Rightarrow> int \<Rightarrow> bool" where
  "isInMinHeap h v \<longleftrightarrow> pos h v < heap_size h"

text \<open>
  The validity of a heap state: the size is within the capacity, every slot below the size
  is where \<open>pos\<close> says its node is, and no slot has a smaller key than its parent slot.
\<close>

definition valid_heap :: "MinHeap \<Rightarrow> bool" where
  "valid_heap h \<longleftrightarrow>
     heap_size h \<le> capacity h
     \<and> (\<forall>i < heap_size h. pos h (heap_node_id (array h i)) = i)
     \<and> (\<forall>i. 0 < i \<and> i < heap_size h \<longrightarrow> dist (array h ((i - 1) div 2)) \<le> dist (array h i))"

definition pos_ok :: "MinHeap \<Rightarrow> bool" where
  "pos_ok h \<longleftrightarrow> (\<forall>i < heap_size h. pos h (heap_node_id (array h i)) = i)"

definition heap_order :: "MinHeap \<Rightarrow> bool" where
  "heap_order h \<longleftrightarrow>
     (\<forall>i. 0 < i \<and> i < heap_size h \<longrightarrow> dist (array h ((i - 1) div 2)) \<le> dist (array h i))"

text \<open>Heap order everywhere but below position \<open>idx\<close>, whose parent is no larger than its children.\<close>

definition down_ok :: "MinHeap \<Rightarrow> nat \<Rightarrow> bool" where
  "down_ok h idx \<longleftrightarrow>
     (\<forall>i. 0 < i \<and> i < heap_size h \<and> (i - 1) div 2 \<noteq> idx \<longrightarrow>
            dist (array h ((i - 1) div 2)) \<le> dist (array h i))
     \<and> (\<forall>i. 0 < i \<and> i < heap_size h \<and> (i - 1) div 2 = idx \<and> 0 < idx \<longrightarrow>
            dist (array h ((idx - 1) div 2)) \<le> dist (array h i))"

text \<open>Heap order everywhere but between position \<open>i\<close> and its parent, which is no larger than the children of \<open>i\<close>.\<close>

definition up_ok :: "MinHeap \<Rightarrow> nat \<Rightarrow> bool" where
  "up_ok h i \<longleftrightarrow>
     (\<forall>k. 0 < k \<and> k < heap_size h \<and> k \<noteq> i \<longrightarrow>
            dist (array h ((k - 1) div 2)) \<le> dist (array h k))
     \<and> (\<forall>k. 0 < k \<and> k < heap_size h \<and> (k - 1) div 2 = i \<and> 0 < i \<longrightarrow>
            dist (array h ((i - 1) div 2)) \<le> dist (array h k))"

definition entry :: "MinHeap \<Rightarrow> int \<Rightarrow> MinHeapNode" where
  "entry h v = array h (pos h v)"

text \<open>The \<open>pos\<close> table and the slots below the size are inverse to each other on the node ids \<open>[0, V)\<close>.\<close>

definition ids_ok :: "int \<Rightarrow> MinHeap \<Rightarrow> bool" where
  "ids_ok V h \<longleftrightarrow>
     (\<forall>i < heap_size h. 0 \<le> heap_node_id (array h i) \<and> heap_node_id (array h i) < V
          \<and> pos h (heap_node_id (array h i)) = i)
     \<and> (\<forall>v. 0 \<le> v \<and> v < V \<and> pos h v < heap_size h \<longrightarrow> heap_node_id (entry h v) = v)"

definition same_entries :: "int \<Rightarrow> MinHeap \<Rightarrow> MinHeap \<Rightarrow> bool" where
  "same_entries V h h' \<longleftrightarrow>
     heap_size h' = heap_size h
     \<and> (\<forall>v. 0 \<le> v \<and> v < V \<longrightarrow>
           (pos h' v < heap_size h \<longleftrightarrow> pos h v < heap_size h)
           \<and> (pos h v < heap_size h \<longrightarrow> entry h' v = entry h v))"

text \<open>The heap of \<^verbatim>\<open>extractMin\<close> before \<^verbatim>\<open>minHeapify(minHeap, 0)\<close>.\<close>

definition before_heapify :: "MinHeap \<Rightarrow> MinHeap" where
  "before_heapify h =
     h\<lparr> array := (array h)(0 := array h (heap_size h - 1)),
        pos := (pos h)(heap_node_id (array h 0) := heap_size h - 1,
                       heap_node_id (array h (heap_size h - 1)) := 0),
        heap_size := heap_size h - 1 \<rparr>"

definition three_heap :: MinHeap where
  "three_heap =
     \<lparr> capacity = 3, heap_size = 3, pos = (\<lambda>v. nat v),
       array = (\<lambda>i. if i = 0 then \<lparr> heap_node_id = 0, dist = 1 \<rparr>
                      else if i = 1 then \<lparr> heap_node_id = 1, dist = 5 \<rparr>
                      else \<lparr> heap_node_id = 2, dist = 3 \<rparr>) \<rparr>"

text \<open>The loops of the heap change neither its size nor its capacity.\<close>

lemma exchange_simps [simp]:
  "heap_size (exchange h i j) = heap_size h"
  "capacity (exchange h i j) = capacity h"
  "array (exchange h i j) = (array h)(i := array h j, j := array h i)"
  by (simp_all add: exchange_def Let_def)

lemma minHeapify_stop: "smallest_of h idx = idx \<Longrightarrow> minHeapify h idx = h"
  by (subst minHeapify.simps) simp

lemma minHeapify_go:
  "smallest_of h idx \<noteq> idx \<Longrightarrow>
   minHeapify h idx = minHeapify (exchange h (smallest_of h idx) idx) (smallest_of h idx)"
  by (subst minHeapify.simps) simp

lemma minHeapify_size [simp]: "heap_size (minHeapify h idx) = heap_size h"
  by (induction h idx rule: minHeapify.induct) (subst minHeapify.simps, simp)

lemma minHeapify_capacity [simp]: "capacity (minHeapify h idx) = capacity h"
  by (induction h idx rule: minHeapify.induct) (subst minHeapify.simps, simp)

lemma decreaseKey_loop_stop:
  "\<not> (i \<noteq> 0 \<and> dist (array h i) < dist (array h ((i - 1) div 2))) \<Longrightarrow> decreaseKey_loop h i = h"
  by (subst decreaseKey_loop.simps) auto

lemma decreaseKey_loop_go:
  "i \<noteq> 0 \<and> dist (array h i) < dist (array h ((i - 1) div 2)) \<Longrightarrow>
   decreaseKey_loop h i = decreaseKey_loop (exchange h i ((i - 1) div 2)) ((i - 1) div 2)"
  by (subst decreaseKey_loop.simps) auto

lemma decreaseKey_loop_size [simp]: "heap_size (decreaseKey_loop h i) = heap_size h"
  by (induction h i rule: decreaseKey_loop.induct) (subst decreaseKey_loop.simps, simp)

lemma decreaseKey_loop_capacity [simp]: "capacity (decreaseKey_loop h i) = capacity h"
  by (induction h i rule: decreaseKey_loop.induct) (subst decreaseKey_loop.simps, simp)

section \<open>A* search (routing.c, \<^verbatim>\<open>find_route_a_star_path\<close>)\<close>

text \<open>
  The working arrays of the search: \<^verbatim>\<open>g_score\<close>, \<^verbatim>\<open>f_score\<close>, \<^verbatim>\<open>parent\<close> and the heap.  The
  arrays have \<open>V = num_nodes\<close> slots in C; every index the code uses is checked to be in
  \<open>[0, V)\<close> first, and the stores below are never read outside this range.
\<close>

record astar_state =
  g_score :: "int \<Rightarrow> real"
  f_score :: "int \<Rightarrow> real"
  parent :: "int \<Rightarrow> int"
  minHeap :: MinHeap

text \<open>The initialisation loop: every node at \<^verbatim>\<open>DBL_MAX\<close>, no parent, node \<open>i\<close> in heap slot \<open>i\<close>.\<close>

definition astar_init :: "int \<Rightarrow> astar_state" where
  "astar_init V =
     \<lparr> g_score = (\<lambda>i. DBL_MAX), f_score = (\<lambda>i. DBL_MAX), parent = (\<lambda>i. - 1),
       minHeap = \<lparr> capacity = nat V, heap_size = nat V, pos = (\<lambda>i. nat i),
                   array = (\<lambda>i. \<lparr> heap_node_id = int i, dist = DBL_MAX \<rparr>) \<rparr> \<rparr>"

text \<open>
  \<^verbatim>\<open>f_score[v] = tentative_g + h\<close>: the sum is \<open>+inf\<close> when \<open>h\<close> is, or when it overflows.
\<close>

definition add_f :: "real \<Rightarrow> real \<Rightarrow> real" where
  "add_f a b = (if b = INFINITY \<or> a + b > DBL_MAX then INFINITY else a + b)"

text \<open>
  The body of the inner \<^verbatim>\<open>while\<close> loop, for one entry \<open>eid\<close> of the adjacency list of \<open>u\<close>.
  \<open>None\<close> is the \<^verbatim>\<open>exit(1)\<close> of \<^verbatim>\<open>get_edge_weight\<close> or \<^verbatim>\<open>heuristic\<close>.
\<close>

definition relax_edge :: "Graph \<Rightarrow> int \<Rightarrow> int \<Rightarrow> astar_state \<Rightarrow> int \<Rightarrow> astar_state option" where
  "relax_edge graph target_id u st eid =
     (if eid < 0 \<or> eid \<ge> num_edges graph then Some st
      else
        let v = to_node (edges graph eid) in
        case get_edge_weight graph eid of
          None \<Rightarrow> None
        | Some w \<Rightarrow>
            if v < 0 \<or> v \<ge> num_nodes graph then Some st
            else if g_score st u \<noteq> DBL_MAX then
              let tentative_g = g_score st u + w in
              if tentative_g < g_score st v then
                case heuristic graph v target_id of
                  None \<Rightarrow> None
                | Some h \<Rightarrow>
                    let st1 = st\<lparr> g_score := (g_score st)(v := tentative_g) \<rparr>;
                        st2 = st1\<lparr> f_score := (f_score st1)(v := add_f tentative_g h) \<rparr>;
                        st3 = st2\<lparr> parent := (parent st2)(v := u) \<rparr>
                    in if isInMinHeap (minHeap st3) v
                       then Some (st3\<lparr> minHeap := decreaseKey (minHeap st3) v (f_score st3 v) \<rparr>)
                       else Some st3
              else Some st
            else Some st)"

fun relax_loop :: "Graph \<Rightarrow> int \<Rightarrow> int \<Rightarrow> int list \<Rightarrow> astar_state \<Rightarrow> astar_state option" where
  "relax_loop graph target_id u [] st = Some st"
| "relax_loop graph target_id u (eid # rest) st =
     (case relax_edge graph target_id u st eid of
        None \<Rightarrow> None
      | Some st1 \<Rightarrow> relax_loop graph target_id u rest st1)"

lemma relax_edge_heap_size:
  "relax_edge graph target_id u st eid = Some st1 \<Longrightarrow>
   heap_size (minHeap st1) = heap_size (minHeap st)"
  by (auto simp: relax_edge_def Let_def decreaseKey_def split: if_splits option.splits)

lemma relax_loop_heap_size:
  "relax_loop graph target_id u rest st = Some st1 \<Longrightarrow>
   heap_size (minHeap st1) = heap_size (minHeap st)"
proof (induction rest arbitrary: st)
  case Nil
  then show ?case by simp
next
  case (Cons eid rest)
  then show ?case by (auto split: option.splits dest: relax_edge_heap_size)
qed

lemma extractMin_heap_size:
  "extractMin h = (Some r, h1) \<Longrightarrow> heap_size h1 < heap_size h"
  by (auto simp: extractMin_def isEmpty_def Let_def split: if_splits)

text \<open>
  The outer \<^verbatim>\<open>while (!isEmpty(minHeap))\<close> loop.  The result is the flag \<^verbatim>\<open>found\<close> and the final
  arrays; \<open>None\<close> is an \<^verbatim>\<open>exit(1)\<close> inside the loop.
\<close>

function astar_loop :: "Graph \<Rightarrow> int \<Rightarrow> astar_state \<Rightarrow> (bool \<times> astar_state) option" where
  "astar_loop graph target_id st =
     (if isEmpty (minHeap st) then Some (False, st)
      else
        case extractMin (minHeap st) of
          (None, h) \<Rightarrow> Some (False, st\<lparr> minHeap := h \<rparr>)
        | (Some minNode, h) \<Rightarrow>
            let u = heap_node_id minNode;
                u_f = dist minNode;
                st1 = st\<lparr> minHeap := h \<rparr>
            in if u_f = DBL_MAX then Some (False, st1)
               else if u = target_id then Some (True, st1)
               else
                 case relax_loop graph target_id u (out_edges (nodes graph u)) st1 of
                   None \<Rightarrow> None
                 | Some st2 \<Rightarrow> astar_loop graph target_id st2)"
  by pat_completeness auto
termination
proof (relation "measure (\<lambda>(graph, target_id, st). heap_size (minHeap st))")
  show "wf (measure (\<lambda>(graph, target_id, st). heap_size (minHeap st)))" by simp
next
  fix graph :: Graph and target_id :: int and st st2 :: astar_state
    and x :: "MinHeapNode option \<times> MinHeap"
    and x1 :: "MinHeapNode option" and h :: MinHeap and minNode :: MinHeapNode
    and u :: int and u_f :: real and st1 :: astar_state
  assume "(x1, h) = extractMin (minHeap st)" "x1 = Some minNode"
    and "st1 = st\<lparr>minHeap := h\<rparr>"
    and "relax_loop graph target_id u (out_edges (nodes graph u)) st1 = Some st2"
  then have "heap_size h < heap_size (minHeap st)"
    "heap_size (minHeap st2) = heap_size h"
    using extractMin_heap_size[of "minHeap st" minNode h]
      relax_loop_heap_size[of graph target_id u "out_edges (nodes graph u)" st1 st2]
    by auto
  then show "((graph, target_id, st2), (graph, target_id, st))
      \<in> measure (\<lambda>(graph, target_id, st). heap_size (minHeap st))"
    by simp
qed

declare astar_loop.simps [simp del]

text \<open>
  Path reconstruction.  \<open>walk_parents\<close> is the loop that writes \<open>v\<close>, \<open>parent[v]\<close>, ... into
  \<^verbatim>\<open>node_path\<close> until \<open>-1\<close>; the buffer has \<open>V\<close> slots, and \<open>None\<close> is a write past its end.
\<close>

fun walk_parents :: "(int \<Rightarrow> int) \<Rightarrow> nat \<Rightarrow> int \<Rightarrow> int list option" where
  "walk_parents par 0 v = (if v = - 1 then Some [] else None)"
| "walk_parents par (Suc n) v =
     (if v = - 1 then Some []
      else case walk_parents par n (par v) of None \<Rightarrow> None | Some vs \<Rightarrow> Some (v # vs))"

text \<open>The loop of \<^verbatim>\<open>find_edge_id\<close> over the adjacency list of \<open>from\<close>.\<close>

fun find_edge_loop :: "Graph \<Rightarrow> int \<Rightarrow> int list \<Rightarrow> int" where
  "find_edge_loop g to [] = - 1"
| "find_edge_loop g to (eid # rest) =
     (if eid \<ge> 0 \<and> eid < num_edges g \<and> to_node (edges g eid) = to then eid
      else find_edge_loop g to rest)"

definition find_edge_id :: "Graph \<Rightarrow> int \<Rightarrow> int \<Rightarrow> int" where
  "find_edge_id g from to = find_edge_loop g to (out_edges (nodes g from))"

text \<open>
  The loop that converts the node path to edge ids; \<open>out\<close> is what \<^verbatim>\<open>out_edges\<close> holds so
  far.  \<open>Inl\<close> is the return code 15 or 16.
\<close>

fun nodes_to_edges :: "Graph \<Rightarrow> int \<Rightarrow> int list \<Rightarrow> int list \<Rightarrow> int + int list" where
  "nodes_to_edges g max_edges (a # b # rest) out =
     (let eid = find_edge_id g a b in
      if eid < 0 then Inl 15
      else if int (length out) \<ge> max_edges then Inl 16
      else nodes_to_edges g max_edges (b # rest) (out @ [eid]))"
| "nodes_to_edges g max_edges [a] out = Inr out"
| "nodes_to_edges g max_edges [] out = Inr out"

text \<open>
  The result of \<^verbatim>\<open>find_route_a_star_path\<close>: \<open>Route cost edges nodes\<close> is return code 0
  with the three outputs, \<open>Rc n\<close> a non-zero return code, \<open>Aborted\<close> an \<^verbatim>\<open>exit(1)\<close> or a write
  outside \<^verbatim>\<open>node_path\<close>.  Pointers are not null and \<^verbatim>\<open>malloc\<close> succeeds, so the codes 10, 12, 13
  and 14 do not occur.
\<close>

datatype route_result = Route real "int list" "int list" | Rc int | Aborted

text \<open>The arrays when the outer loop is entered; \<open>h0\<close> is \<^verbatim>\<open>heuristic(graph, start_id, target_id)\<close>.\<close>

definition astar_start :: "Graph \<Rightarrow> int \<Rightarrow> real \<Rightarrow> astar_state" where
  "astar_start graph start_id h0 =
     (let V = num_nodes graph;
          st0 = astar_init V;
          st1 = st0\<lparr> g_score := (g_score st0)(start_id := 0) \<rparr>;
          st2 = st1\<lparr> f_score := (f_score st1)(start_id := h0) \<rparr>
      in st2\<lparr> minHeap := decreaseKey (minHeap st2) start_id (f_score st2 start_id) \<rparr>)"

text \<open>The part of the function after the loop, when \<^verbatim>\<open>found\<close> is set.\<close>

definition reconstruct :: "Graph \<Rightarrow> int \<Rightarrow> int \<Rightarrow> int \<Rightarrow> astar_state \<Rightarrow> route_result" where
  "reconstruct graph target_id max_edges max_nodes st =
     (case walk_parents (parent st) (nat (num_nodes graph)) target_id of
        None \<Rightarrow> Aborted
      | Some back \<Rightarrow>
          let node_path = rev back;
              path_len = int (length node_path)
          in if path_len > max_nodes then Rc 17
             else
               case nodes_to_edges graph max_edges node_path [] of
                 Inl rc \<Rightarrow> Rc rc
               | Inr es \<Rightarrow> Route (g_score st target_id) es node_path)"

definition find_route_a_star_path :: "Graph \<Rightarrow> int \<Rightarrow> int \<Rightarrow> int \<Rightarrow> int \<Rightarrow> route_result" where
  "find_route_a_star_path graph start_id target_id max_edges max_nodes =
     (if start_id < 0 \<or> start_id \<ge> num_nodes graph
         \<or> target_id < 0 \<or> target_id \<ge> num_nodes graph then Rc 11
      else
        case heuristic graph start_id target_id of
          None \<Rightarrow> Aborted
        | Some h0 \<Rightarrow>
            (case astar_loop graph target_id (astar_start graph start_id h0) of
               None \<Rightarrow> Aborted
             | Some (found, st) \<Rightarrow>
                 if \<not> found then Rc 1
                 else reconstruct graph target_id max_edges max_nodes st))"

text \<open>
  The edges the search follows from a node are the entries of its adjacency list that pass
  the two range checks of the inner loop.
\<close>

definition edge_ok :: "Graph \<Rightarrow> int \<Rightarrow> bool" where
  "edge_ok g eid \<longleftrightarrow>
     0 \<le> eid \<and> eid < num_edges g
     \<and> 0 \<le> to_node (edges g eid) \<and> to_node (edges g eid) < num_nodes g"

definition weight :: "Graph \<Rightarrow> int \<Rightarrow> real" where
  "weight g eid = current_travel_time (edges g eid)"

definition hval :: "Graph \<Rightarrow> int \<Rightarrow> int \<Rightarrow> real" where
  "hval g t v = (case heuristic g v t of Some h \<Rightarrow> h | None \<Rightarrow> 0)"

text \<open>The statements of the inner loop that record a better way to \<open>v\<close> through \<open>u\<close>.\<close>

definition improve :: "astar_state \<Rightarrow> int \<Rightarrow> int \<Rightarrow> real \<Rightarrow> real \<Rightarrow> astar_state" where
  "improve st u v tg h =
     (let st3 = st\<lparr> g_score := (g_score st)(v := tg), f_score := (f_score st)(v := tg + h),
                     parent := (parent st)(v := u) \<rparr>
      in if isInMinHeap (minHeap st3) v
         then st3\<lparr> minHeap := decreaseKey (minHeap st3) v (f_score st3 v) \<rparr>
         else st3)"

text \<open>
  Weights between 0 and \<open>B\<close>, and no sum of at most \<open>num_nodes\<close> weights and a heuristic value
  reaches \<^verbatim>\<open>DBL_MAX\<close>, the value the search uses for "not reached".
\<close>

definition bounded_graph :: "Graph \<Rightarrow> int \<Rightarrow> real \<Rightarrow> bool" where
  "bounded_graph g t B \<longleftrightarrow>
     0 \<le> B
     \<and> (\<forall>u eid. 0 \<le> u \<and> u < num_nodes g \<and> eid \<in> set (out_edges (nodes g u)) \<and> edge_ok g eid
           \<longrightarrow> 0 \<le> weight g eid \<and> weight g eid \<le> B)
     \<and> (\<forall>v. 0 \<le> v \<and> v < num_nodes g \<longrightarrow> B * real_of_int (num_nodes g) + hval g t v < DBL_MAX)"

text \<open>The number of nodes extracted so far.\<close>

definition extracted :: "Graph \<Rightarrow> astar_state \<Rightarrow> real" where
  "extracted g st = real_of_int (num_nodes g) - real (heap_size (minHeap st))"

definition inv_A :: "Graph \<Rightarrow> int \<Rightarrow> int \<Rightarrow> real \<Rightarrow> astar_state \<Rightarrow> bool" where
  "inv_A g s t B st \<longleftrightarrow>
     valid_heap (minHeap st) \<and> ids_ok (num_nodes g) (minHeap st)
     \<and> real (heap_size (minHeap st)) \<le> real_of_int (num_nodes g)
     \<and> g_score st s = 0
     \<and> (\<forall>v. 0 \<le> v \<and> v < num_nodes g \<longrightarrow>
           0 \<le> g_score st v \<and> g_score st v \<le> DBL_MAX
           \<and> (g_score st v < DBL_MAX \<longrightarrow> g_score st v \<le> B * extracted g st)
           \<and> (isInMinHeap (minHeap st) v \<longrightarrow>
                dist (entry (minHeap st) v)
                  = (if g_score st v < DBL_MAX then g_score st v + hval g t v else DBL_MAX)))"

text \<open>\<open>is_chain par vs\<close>: the list \<open>vs\<close> follows the parent pointers from its head to a node without parent.\<close>

fun is_chain :: "(int \<Rightarrow> int) \<Rightarrow> int list \<Rightarrow> bool" where
  "is_chain par [] = False"
| "is_chain par [v] = (par v = - 1)"
| "is_chain par (v # u # rest) = (par v = u \<and> u \<noteq> - 1 \<and> is_chain par (u # rest))"

definition inv_B :: "Graph \<Rightarrow> int \<Rightarrow> astar_state \<Rightarrow> bool" where
  "inv_B g s st \<longleftrightarrow>
     parent st s = - 1
     \<and> (\<forall>v. 0 \<le> v \<and> v < num_nodes g \<and> v \<noteq> s \<longrightarrow>
           (parent st v = - 1 \<longleftrightarrow> g_score st v = DBL_MAX))
     \<and> (\<forall>v. 0 \<le> v \<and> v < num_nodes g \<and> parent st v \<noteq> - 1 \<longrightarrow>
           0 \<le> parent st v \<and> parent st v < num_nodes g
           \<and> g_score st (parent st v) \<le> g_score st v
           \<and> (\<exists>eid \<in> set (out_edges (nodes g (parent st v))).
                 edge_ok g eid \<and> to_node (edges g eid) = v
                 \<and> g_score st (parent st v) + weight g eid \<le> g_score st v))
     \<and> (\<forall>v. 0 \<le> v \<and> v < num_nodes g \<and> g_score st v < DBL_MAX \<longrightarrow>
           (\<exists>vs. vs \<noteq> [] \<and> hd vs = v \<and> is_chain (parent st) vs
                 \<and> (\<forall>x \<in> set vs. 0 \<le> x \<and> x < num_nodes g)))"

text \<open>Every node that has left the heap was reached, and so was every node its edges lead to.\<close>

definition inv_C :: "Graph \<Rightarrow> astar_state \<Rightarrow> bool" where
  "inv_C g st \<longleftrightarrow>
     (\<forall>u. 0 \<le> u \<and> u < num_nodes g \<and> \<not> isInMinHeap (minHeap st) u \<longrightarrow>
        g_score st u < DBL_MAX
        \<and> (\<forall>eid \<in> set (out_edges (nodes g u)). edge_ok g eid \<longrightarrow>
              g_score st (to_node (edges g eid)) < DBL_MAX))"

text \<open>The same for every node but \<open>u\<close>, the node whose edges are being followed.\<close>

definition inv_C_but :: "Graph \<Rightarrow> int \<Rightarrow> astar_state \<Rightarrow> bool" where
  "inv_C_but g u st \<longleftrightarrow>
     (\<forall>x. 0 \<le> x \<and> x < num_nodes g \<and> x \<noteq> u \<and> \<not> isInMinHeap (minHeap st) x \<longrightarrow>
        g_score st x < DBL_MAX
        \<and> (\<forall>eid \<in> set (out_edges (nodes g x)). edge_ok g eid \<longrightarrow>
              g_score st (to_node (edges g eid)) < DBL_MAX))"

text \<open>What holds while the edges of the extracted node \<open>u\<close> are followed.\<close>

definition inv_relax :: "Graph \<Rightarrow> int \<Rightarrow> int \<Rightarrow> real \<Rightarrow> int \<Rightarrow> astar_state \<Rightarrow> bool" where
  "inv_relax g s t B u st \<longleftrightarrow>
     inv_A g s t B st \<and> inv_B g s st \<and> inv_C_but g u st
     \<and> g_score st u + B \<le> B * extracted g st \<and> g_score st u < DBL_MAX"

text \<open>
  Reachability along the adjacency lists, through the edges the search follows.
\<close>

inductive reach :: "Graph \<Rightarrow> int \<Rightarrow> int \<Rightarrow> bool" for g :: Graph and s :: int where
  reach_start: "0 \<le> s \<Longrightarrow> s < num_nodes g \<Longrightarrow> reach g s s"
| reach_step: "reach g s u \<Longrightarrow> eid \<in> set (out_edges (nodes g u)) \<Longrightarrow> edge_ok g eid \<Longrightarrow>
     reach g s (to_node (edges g eid))"

text \<open>What holds whenever the main loop tests its condition.\<close>

definition inv_loop :: "Graph \<Rightarrow> int \<Rightarrow> int \<Rightarrow> real \<Rightarrow> astar_state \<Rightarrow> bool" where
  "inv_loop g s t B st \<longleftrightarrow>
     inv_A g s t B st \<and> inv_B g s st \<and> inv_C g st \<and> isInMinHeap (minHeap st) t"

text \<open>
  \<open>joins g e a b\<close>: the edge \<open>e\<close> is in the adjacency list of \<open>a\<close> and leads to \<open>b\<close>.
\<close>

definition joins :: "Graph \<Rightarrow> int \<Rightarrow> int \<Rightarrow> int \<Rightarrow> bool" where
  "joins g e a b \<longleftrightarrow>
     e \<in> set (out_edges (nodes g a)) \<and> 0 \<le> e \<and> e < num_edges g \<and> to_node (edges g e) = b"

text \<open>
  \<open>path_ok g ns es\<close>: the edge list has one edge for every two consecutive nodes of the
  node list, the edge that \<^verbatim>\<open>find_edge_id\<close> gives for them, and it joins them.
\<close>

fun path_ok :: "Graph \<Rightarrow> int list \<Rightarrow> int list \<Rightarrow> bool" where
  "path_ok g [a] [] = True"
| "path_ok g (a # b # rest) (e # es) =
     (e = find_edge_id g a b \<and> joins g e a b \<and> path_ok g (b # rest) es)"
| "path_ok g ns es = False"

text \<open>The weights of the edges from \<open>a\<close> to \<open>b\<close> that the search follows, and the least of them.\<close>

definition weights_between :: "Graph \<Rightarrow> int \<Rightarrow> int \<Rightarrow> real list" where
  "weights_between g a b =
     map (weight g) (filter (\<lambda>e. edge_ok g e \<and> to_node (edges g e) = b) (out_edges (nodes g a)))"

fun least :: "real list \<Rightarrow> real" where
  "least [] = 0"
| "least [w] = w"
| "least (w # ws) = min w (least ws)"

definition cheapest :: "Graph \<Rightarrow> int \<Rightarrow> int \<Rightarrow> real" where
  "cheapest g a b = least (weights_between g a b)"

text \<open>The cost of a node path when every hop takes the cheapest edge.\<close>

fun hop_cost :: "Graph \<Rightarrow> int list \<Rightarrow> real" where
  "hop_cost g (a # b # rest) = cheapest g a b + hop_cost g (b # rest)"
| "hop_cost g ns = 0"






text \<open>The sum of the current weights of a list of edges.\<close>

definition walk_cost :: "Graph \<Rightarrow> int list \<Rightarrow> real" where
  "walk_cost g es = sum_list (map (weight g) es)"

section \<open>Protocol (server.c)\<close>

subsection \<open>Formatting: \<^verbatim>\<open>snprintf\<close> with \<^verbatim>\<open>%d\<close> and \<^verbatim>\<open>%.3f\<close>\<close>

definition digit_char :: "nat \<Rightarrow> char" where
  "digit_char n = ''0123456789'' ! (n mod 10)"

function show_nat :: "nat \<Rightarrow> string" where
  "show_nat n = (if n < 10 then [digit_char n] else show_nat (n div 10) @ [digit_char (n mod 10)])"
  by pat_completeness auto
termination
  by (relation "measure (\<lambda>n. n)") auto

declare show_nat.simps [simp del]

text \<open>\<^verbatim>\<open>%d\<close>.\<close>

definition show_int :: "int \<Rightarrow> string" where
  "show_int i = (if i < 0 then CHR ''-'' # show_nat (nat (- i)) else show_nat (nat i))"

text \<open>
  \<^verbatim>\<open>%.3f\<close>: the value rounded to the nearest thousandth, a tie to the even one (the exact
  value of the double is rounded in the current rounding mode), with a minus sign for a
  negative value.
\<close>

definition round_half_even :: "real \<Rightarrow> nat" where
  "round_half_even x =
     (let f = nat \<lfloor>x\<rfloor>; d = x - real f
      in if d < 1 / 2 then f else if d > 1 / 2 then f + 1 else if even f then f else f + 1)"

definition show_fixed3 :: "real \<Rightarrow> string" where
  "show_fixed3 r =
     (let m = round_half_even (\<bar>r\<bar> * 1000); ip = m div 1000; fp = m mod 1000
      in (if r < 0 then ''-'' else []) @ show_nat ip @ ''.''
           @ [digit_char (fp div 100), digit_char (fp div 10 mod 10), digit_char (fp mod 10)])"

text \<open>
  \<^verbatim>\<open>n += snprintf(resp + n, buf_sz - n, ...)\<close> for \<open>0 \<le> n < buf_sz\<close>: the buffer keeps at most
  \<open>buf_sz - 1\<close> characters, the count grows by the full length of the text.
\<close>

definition snprintf_at :: "int \<Rightarrow> string \<times> int \<Rightarrow> string \<Rightarrow> string \<times> int" where
  "snprintf_at buf_sz st s = (take (nat (buf_sz - 1)) (fst st @ s), snd st + int (length s))"

text \<open>The two loops that print \<^verbatim>\<open>" %d"\<close> for every element while \<open>n > 0 && n < buf_sz\<close>.\<close>

fun print_ids :: "int \<Rightarrow> int list \<Rightarrow> string \<times> int \<Rightarrow> string \<times> int" where
  "print_ids buf_sz [] st = st"
| "print_ids buf_sz (x # xs) st =
     (if snd st > 0 \<and> snd st < buf_sz
      then print_ids buf_sz xs (snprintf_at buf_sz st (CHR '' '' # show_int x))
      else st)"

subsection \<open>Workers: \<^verbatim>\<open>build_route_response\<close>\<close>

text \<open>
  The part of \<^verbatim>\<open>build_route_response\<close> that prints the \<^verbatim>\<open>ROUTE2\<close> line into a buffer of
  \<open>buf_sz\<close> bytes.  \<open>None\<close> is the unguarded \<^verbatim>\<open>snprintf\<close> of the edge count called with
  \<open>n \<ge> buf_sz\<close>: its size argument wraps around and the call writes outside the buffer.
\<close>

definition format_route :: "real \<Rightarrow> int list \<Rightarrow> int list \<Rightarrow> string option" where
  "format_route cost path_nodes path_edges =
     (let edge_count = int (length path_edges);
          node_count = int (length path_nodes);
          buf_sz = 64 + edge_count * 16 + node_count * 16;
          st0 = snprintf_at buf_sz ([], 0)
                  (''ROUTE2 '' @ show_fixed3 cost @ '' '' @ show_int node_count);
          st1 = print_ids buf_sz path_nodes st0
      in if snd st1 \<ge> buf_sz then None
         else
           let st2 = snprintf_at buf_sz st1 (CHR '' '' # show_int edge_count);
               st3 = print_ids buf_sz path_edges st2
           in if snd st3 > 0 \<and> snd st3 < buf_sz
              then Some (fst (snprintf_at buf_sz st3 [NL]))
              else Some (''ERR ROUTE_FAIL'' @ [NL]))"

text \<open>
  The response line, or \<open>None\<close> when the process has left defined behaviour (\<open>Aborted\<close>
  inside the search, or the write outside the buffer).  \<^verbatim>\<open>malloc\<close> succeeds.
\<close>

definition build_route_response :: "Graph \<Rightarrow> int \<Rightarrow> int \<Rightarrow> string option" where
  "build_route_response g src dst =
     (if src < 0 \<or> src \<ge> num_nodes g \<or> dst < 0 \<or> dst \<ge> num_nodes g
      then Some (''ERR BAD_NODES'' @ [NL])
      else
        let max_edges = (if num_nodes g > 0 then num_nodes g else 1) in
        case find_route_a_star_path g src dst max_edges (num_nodes g) of
          Aborted \<Rightarrow> None
        | Rc rc \<Rightarrow> if rc = 1 then Some (''ERR NO_ROUTE'' @ [NL]) else Some (''ERR ROUTE_FAIL'' @ [NL])
        | Route cost path_edges path_nodes \<Rightarrow>
            let edge_count = int (length path_edges);
                node_count = int (length path_nodes)
            in if edge_count < 0 \<or> edge_count > max_edges then Some (''ERR ROUTE_FAIL'' @ [NL])
               else if node_count < 0 \<or> node_count > num_nodes g then Some (''ERR ROUTE_FAIL'' @ [NL])
               else format_route cost path_nodes path_edges)"

subsection \<open>Connection handler: \<^verbatim>\<open>client_thread_main\<close>\<close>

definition CR :: char where
  "CR = CHR 0x0D"

text \<open>
  The buffer that \<^verbatim>\<open>recv_line\<close> fills can hold any bytes.  The handler reads it as a C string:
  \<^verbatim>\<open>strlen\<close>, \<^verbatim>\<open>line[0]\<close> and \<^verbatim>\<open>sscanf\<close> see the bytes before the first NUL.
\<close>

definition c_str :: "string \<Rightarrow> string" where
  "c_str buf = takeWhile (\<lambda>c. c \<noteq> CHR 0x00) buf"

text \<open>\<^verbatim>\<open>trim_crlf\<close>: the C string that the buffer holds after the call.\<close>

definition trim_crlf :: "string \<Rightarrow> string" where
  "trim_crlf s = rev (dropWhile (\<lambda>c. c = NL \<or> c = CR) (rev (c_str s)))"

text \<open>
  \<^verbatim>\<open>sscanf\<close>, as the C standard describes the directives the two formats use.  White space
  in the format skips any run of white space of the input, also an empty one; \<^verbatim>\<open>%d\<close> skips
  white space, then reads an optional sign and a non-empty run of decimal digits; anything
  after the last directive is ignored.  The value that \<^verbatim>\<open>%d\<close> stores is the one of the GNU C
  library on a 64-bit target: the integer the digits denote is converted as \<^verbatim>\<open>strtol\<close> does,
  which saturates at the bounds of \<^verbatim>\<open>long\<close>, and the \<^verbatim>\<open>int\<close> receives its low 32 bits
  (\<open>c_int\<close>).  The conversion \<^verbatim>\<open>%lf\<close> belongs to the C library: it is the parameter \<open>scan_lf\<close>,
  from the input after white space to the value and the rest, or \<open>None\<close> when no number
  starts there.
\<close>

definition c_int :: "int \<Rightarrow> int" where
  "c_int v =
     (let l = max (- (2 ^ 63)) (min v (2 ^ 63 - 1))
      in (l + 2 ^ 31) mod 2 ^ 32 - 2 ^ 31)"

definition is_space :: "char \<Rightarrow> bool" where
  "is_space c \<longleftrightarrow> c \<in> {CHR '' '', CHR 0x09, CHR 0x0A, CHR 0x0B, CHR 0x0C, CHR 0x0D}"

definition is_digit :: "char \<Rightarrow> bool" where
  "is_digit c \<longleftrightarrow> c \<in> set ''0123456789''"

definition digit_val :: "char \<Rightarrow> nat" where
  "digit_val c = of_char c - 48"

definition digits_val :: "string \<Rightarrow> nat" where
  "digits_val ds = foldl (\<lambda>a c. 10 * a + digit_val c) 0 ds"

definition skip_space :: "string \<Rightarrow> string" where
  "skip_space s = dropWhile is_space s"

definition scan_d :: "string \<Rightarrow> (int \<times> string) option" where
  "scan_d s =
     (let s1 = skip_space s;
          neg = (s1 \<noteq> [] \<and> hd s1 = CHR ''-'');
          s2 = (if s1 \<noteq> [] \<and> (hd s1 = CHR ''-'' \<or> hd s1 = CHR ''+'') then tl s1 else s1);
          ds = takeWhile is_digit s2
      in if ds = [] then None
         else Some (c_int (if neg then - int (digits_val ds) else int (digits_val ds)),
                    dropWhile is_digit s2))"

definition scan_literal :: "string \<Rightarrow> string \<Rightarrow> string option" where
  "scan_literal lit s = (if take (length lit) s = lit then Some (drop (length lit) s) else None)"

text \<open>\<^verbatim>\<open>sscanf(line, "REQ %d %d", &src, &dst) == 2\<close>.\<close>

definition scan_REQ :: "string \<Rightarrow> (int \<times> int) option" where
  "scan_REQ line =
     (case scan_literal ''REQ'' line of
        None \<Rightarrow> None
      | Some s1 \<Rightarrow>
          (case scan_d (skip_space s1) of
             None \<Rightarrow> None
           | Some (src, s2) \<Rightarrow>
               (case scan_d (skip_space s2) of
                  None \<Rightarrow> None
                | Some (dst, s3) \<Rightarrow> Some (src, dst))))"

text \<open>\<^verbatim>\<open>sscanf(line, "UPD %d %lf", &edge_id, &speed) == 2\<close>.\<close>

definition scan_UPD :: "(string \<Rightarrow> (real \<times> string) option) \<Rightarrow> string \<Rightarrow> (int \<times> real) option" where
  "scan_UPD scan_lf line =
     (case scan_literal ''UPD'' line of
        None \<Rightarrow> None
      | Some s1 \<Rightarrow>
          (case scan_d (skip_space s1) of
             None \<Rightarrow> None
           | Some (eid, s2) \<Rightarrow>
               (case scan_lf (skip_space s2) of
                  None \<Rightarrow> None
                | Some (speed, s3) \<Rightarrow> Some (eid, speed))))"

datatype Task = TASK_REQ int int | TASK_UPD int real

text \<open>
  What the handler does with one received line: it answers at once, or it queues a task
  for the routing or the traffic workers.  \<^verbatim>\<open>task_create\<close> succeeds.
\<close>

datatype dispatch = Reply string | Routing Task | Traffic Task

definition dispatch_line :: "(string \<Rightarrow> (real \<times> string) option) \<Rightarrow> string \<Rightarrow> dispatch" where
  "dispatch_line scan_lf received =
     (let line = trim_crlf received in
      if line = [] then Reply (''ERR EMPTY'' @ [NL])
      else case scan_REQ line of
             Some (src, dst) \<Rightarrow> Routing (TASK_REQ src dst)
           | None \<Rightarrow>
               (case scan_UPD scan_lf line of
                  Some (eid, speed) \<Rightarrow> Traffic (TASK_UPD eid speed)
                | None \<Rightarrow> Reply (''ERR UNKNOWN_CMD'' @ [NL])))"

text \<open>
  One round of the handler's loop with the worker's execution of the task: the line sent
  back (\<open>None\<close> when the worker left defined behaviour) and the graph afterwards.  The
  loop then reads the next line: the connection is closed only when \<^verbatim>\<open>recv\<close> reports the
  end of the stream or an error.
\<close>

definition run_task :: "Graph \<Rightarrow> Task \<Rightarrow> string option \<times> Graph" where
  "run_task g t =
     (case t of
        TASK_REQ src dst \<Rightarrow> (build_route_response g src dst, g)
      | TASK_UPD eid speed \<Rightarrow> (Some (fst (apply_update g eid speed)), snd (apply_update g eid speed)))"

definition serve_line :: "(string \<Rightarrow> (real \<times> string) option) \<Rightarrow> Graph \<Rightarrow> string \<Rightarrow> string option \<times> Graph" where
  "serve_line scan_lf g received =
     (case dispatch_line scan_lf received of
        Reply r \<Rightarrow> (Some r, g)
      | Routing t \<Rightarrow> run_task g t
      | Traffic t \<Rightarrow> run_task g t)"

text \<open>
  The loop of \<^verbatim>\<open>client_thread_main\<close> for one client, the only one that uses the graph
  meanwhile.  The input is what the calls of \<^verbatim>\<open>recv_line\<close> give in turn: \<open>None\<close> for the
  result \<open>-1\<close>, the empty buffer for the result \<open>0\<close> (the peer has closed), the buffer
  otherwise.  The result is the list of the responses sent, the graph, and how the loop
  stands: \<open>Closed\<close> after a \<^verbatim>\<open>break\<close> (the function then closes the socket), \<open>Waiting\<close> in
  \<^verbatim>\<open>recv_line\<close> with the connection open when the input is used up, \<open>Crashed\<close> when a
  worker has left defined behaviour.  The result of \<^verbatim>\<open>send_all\<close> is ignored, as in the code.
\<close>

datatype ending = Closed | Waiting | Crashed

fun client_thread_main ::
  "(string \<Rightarrow> (real \<times> string) option) \<Rightarrow> Graph \<Rightarrow> string option list
     \<Rightarrow> string list \<times> Graph \<times> ending" where
  "client_thread_main scan_lf g [] = ([], g, Waiting)"
| "client_thread_main scan_lf g (None # rest) = ([], g, Closed)"
| "client_thread_main scan_lf g (Some buf # rest) =
     (if buf = [] then ([], g, Closed)
      else case serve_line scan_lf g buf of
             (None, g1) \<Rightarrow> ([], g1, Crashed)
           | (Some resp, g1) \<Rightarrow>
               (case client_thread_main scan_lf g1 rest of
                  (out, g2, e) \<Rightarrow> (resp # out, g2, e)))"

text \<open>
  The lines that \<^verbatim>\<open>sscanf\<close> converts, as a grammar.  An integer literal is an optional sign and
  a non-empty run of digits, and its value is the \<^verbatim>\<open>int\<close> that \<^verbatim>\<open>%d\<close> stores for it; a
  conversion \<^verbatim>\<open>%d\<close> takes white space, a literal, and stops before the first character that is
  not a digit.
\<close>

definition int_literal :: "string \<Rightarrow> int \<Rightarrow> bool" where
  "int_literal n v \<longleftrightarrow>
     (\<exists>sg ds. n = sg @ ds \<and> (sg = [] \<or> sg = ''+'' \<or> sg = ''-'') \<and> ds \<noteq> []
        \<and> list_all is_digit ds
        \<and> v = c_int (if sg = ''-'' then - int (digits_val ds) else int (digits_val ds)))"

definition stops :: "string \<Rightarrow> bool" where
  "stops r \<longleftrightarrow> (r = [] \<or> \<not> is_digit (hd r))"

definition req_form :: "string \<Rightarrow> int \<Rightarrow> int \<Rightarrow> bool" where
  "req_form line src dst \<longleftrightarrow>
     (\<exists>w1 n1 w2 n2 r. line = ''REQ'' @ w1 @ n1 @ w2 @ n2 @ r
        \<and> list_all is_space w1 \<and> int_literal n1 src \<and> stops (w2 @ n2)
        \<and> list_all is_space w2 \<and> int_literal n2 dst \<and> stops r)"

definition upd_form :: "(string \<Rightarrow> (real \<times> string) option) \<Rightarrow> string \<Rightarrow> int \<Rightarrow> real \<Rightarrow> bool" where
  "upd_form scan_lf line eid speed \<longleftrightarrow>
     (\<exists>w1 n1 w2 r r1. line = ''UPD'' @ w1 @ n1 @ w2 @ r
        \<and> list_all is_space w1 \<and> int_literal n1 eid \<and> stops (w2 @ r)
        \<and> list_all is_space w2 \<and> (r = [] \<or> \<not> is_space (hd r))
        \<and> scan_lf r = Some (speed, r1))"

text \<open>
  The hypothesis on the weights, over the node list: every edge the search follows has a
  weight between 0 and \<open>B\<close>, and \<open>B\<close> times the number of nodes plus a heuristic value stays
  below \<^verbatim>\<open>DBL_MAX\<close>.
\<close>

definition bounded_weights :: "Graph \<Rightarrow> int \<Rightarrow> real \<Rightarrow> bool" where
  "bounded_weights g t B \<longleftrightarrow>
     0 \<le> B
     \<and> (\<forall>u \<in> set [0 ..< nat (num_nodes g)].
          (\<forall>eid \<in> set (out_edges (nodes g (int u))).
              edge_ok g eid \<longrightarrow> 0 \<le> weight g eid \<and> weight g eid \<le> B)
          \<and> B * real_of_int (num_nodes g) + hval g t (int u) < DBL_MAX)"

text \<open>
  The text that the two loops print for a list of ids, the response line with the text
  \<open>ctext\<close> for the cost, and the line with the cost as the model prints it.
\<close>

definition ids_text :: "int list \<Rightarrow> string" where
  "ids_text xs = concat (map (\<lambda>x. CHR '' '' # show_int x) xs)"

definition route2_text :: "string \<Rightarrow> int list \<Rightarrow> int list \<Rightarrow> string" where
  "route2_text ctext ns es =
     ''ROUTE2 '' @ ctext @ '' '' @ show_int (int (length ns)) @ ids_text ns
       @ '' '' @ show_int (int (length es)) @ ids_text es @ [NL]"

definition route2_line :: "real \<Rightarrow> int list \<Rightarrow> int list \<Rightarrow> string" where
  "route2_line cost ns es = route2_text (show_fixed3 cost) ns es"

definition six_node_graph :: Graph where
  "six_node_graph = the (build_graph 6 0 [] [])"

text \<open>Two nodes and the edge 0 from node 0 to node 1, of length 4.\<close>

definition one_way_graph :: Graph where
  "one_way_graph = the (build_graph 2 1 [] [(0, 0, 1, 4, 1)])"

text \<open>The same with the length \<^verbatim>\<open>DBL_MAX\<close>.\<close>

definition sentinel_graph :: Graph where
  "sentinel_graph = the (build_graph 2 1 [] [(0, 0, 1, DBL_MAX, 1)])"


text \<open>
  A conversion for the examples in the place of \<^verbatim>\<open>%lf\<close>: it converts a non-empty run of
  digits and nothing else.
\<close>

definition digits_lf :: "string \<Rightarrow> (real \<times> string) option" where
  "digits_lf s =
     (if takeWhile is_digit s = [] then None
      else Some (real (digits_val (takeWhile is_digit s)), dropWhile is_digit s))"

text \<open>
  Three nodes at \<open>(0, 0)\<close>, \<open>(4, 0)\<close> and \<open>(0, 3)\<close>; the edges 0 from node 0 to node 2 of
  length 3, 1 from node 0 to node 1 of length 4, 2 from node 1 to node 2 of length 5, all
  with the speed limit 1; then \<^verbatim>\<open>UPD 1 8\<close> and \<^verbatim>\<open>UPD 2 8\<close>.
\<close>

definition detour_graph :: Graph where
  "detour_graph = apply_updates
     (the (build_graph 3 3 [(0, 0, 0), (1, 4, 0), (2, 0, 3)]
        [(0, 0, 2, 3, 1), (1, 0, 1, 4, 1), (2, 1, 2, 5, 1)])) [(1, 8), (2, 8)]"


text \<open>
  Node 0 at \<open>(0, 0)\<close>, node 1 at \<open>(10^200, 0)\<close>, and the edge 0 from node 1 to node 0, of
  length 1.
\<close>

definition far_apart_graph :: Graph where
  "far_apart_graph = the (build_graph 2 1 [(1, 10 ^ 200, 0)] [(0, 1, 0, 1, 1)])"
section \<open>Properties of the traffic updates\<close>

lemma apply_update_other: "i \<noteq> eid \<Longrightarrow> edges (snd (apply_update g eid s)) i = edges g i"
  by (simp add: apply_update_def Let_def)

lemma apply_update_num_edges: "num_edges (snd (apply_update g eid s)) = num_edges g"
  by (simp add: apply_update_def Let_def)

lemma apply_update_nodes: "nodes (snd (apply_update g eid s)) = nodes g"
  by (simp add: apply_update_def Let_def)

lemma apply_update_base:
  "base_length (edges (snd (apply_update g eid s)) i) = base_length (edges g i)"
  "base_speed_limit (edges (snd (apply_update g eid s)) i) = base_speed_limit (edges g i)"
  "from_node (edges (snd (apply_update g eid s)) i) = from_node (edges g i)"
  "to_node (edges (snd (apply_update g eid s)) i) = to_node (edges g i)"
  by (simp_all add: apply_update_def Let_def)

lemma apply_updates_num_edges: "num_edges (apply_updates g ups) = num_edges g"
  by (induction g ups rule: apply_updates.induct) (simp_all add: apply_update_num_edges)

lemma apply_updates_base:
  "base_length (edges (apply_updates g ups) i) = base_length (edges g i)"
  "base_speed_limit (edges (apply_updates g ups) i) = base_speed_limit (edges g i)"
  by (induction g ups rule: apply_updates.induct) (simp_all add: apply_update_base)

lemma graph_add_edge_bounded:
  assumes "graph_add_edge g eid from to len sl = Some g1" "0 \<le> len"
  shows "edge_bounded (edges g1 eid)" and "i \<noteq> eid \<Longrightarrow> edges g1 i = edges g i"
    "num_edges g1 = num_edges g"
  using assms by (auto simp: graph_add_edge_def edge_bounded_def split: if_splits)

lemma add_edges_bounded:
  assumes "add_edges g es = Some g1"
    and "\<forall>(i, from, to, len, sl) \<in> set es. 0 \<le> len"
    and "eid \<in> fst ` set es \<or> edge_bounded (edges g eid)"
  shows "edge_bounded (edges g1 eid)"
  using assms
proof (induction g es rule: add_edges.induct)
  case (1 g)
  then show ?case by simp
next
  case (2 g i u v len sl es)
  from "2.prems"(1) obtain g2 where g2: "graph_add_edge g i u v len sl = Some g2"
    and rest: "add_edges g2 es = Some g1"
    by (auto split: option.splits)
  from "2.prems"(2) have len: "0 \<le> len" and lens: "\<forall>(i, from, to, len, sl) \<in> set es. 0 \<le> len"
    by auto
  have "eid \<in> fst ` set es \<or> edge_bounded (edges g2 eid)"
  proof (cases "eid = i")
    case True
    then show ?thesis using graph_add_edge_bounded(1)[OF g2 len] by simp
  next
    case False
    then show ?thesis using "2.prems"(3) graph_add_edge_bounded(2)[OF g2 len, of eid] by auto
  qed
  with "2.IH"[OF g2 rest lens] show ?case by simp
qed

lemma add_edges_valid:
  assumes "add_edges g es = Some g1"
  shows "num_edges g1 = num_edges g \<and> (\<forall>eid \<in> fst ` set es. 0 \<le> eid \<and> eid < num_edges g)"
  using assms
proof (induction g es rule: add_edges.induct)
  case (1 g)
  then show ?case by simp
next
  case (2 g i u v len sl es)
  from "2.prems" obtain g2 where g2: "graph_add_edge g i u v len sl = Some g2"
    and rest: "add_edges g2 es = Some g1"
    by (auto split: option.splits)
  have "num_edges g2 = num_edges g" "0 \<le> i" "i < num_edges g"
    using g2 by (auto simp: graph_add_edge_def split: if_splits)
  with "2.IH"[OF g2 rest] show ?case by auto
qed

lemma apply_update_bounded:
  assumes "edge_bounded (edges g i)"
    and "i = eid \<longrightarrow> max s min_speed \<le> base_speed_limit (edges g i)"
  shows "edge_bounded (edges (snd (apply_update g eid s)) i)"
proof (cases "i = eid \<and> 0 \<le> eid \<and> eid < num_edges g \<and> 0 < s")
  case False
  then show ?thesis using assms(1) by (auto simp: apply_update_def Let_def)
next
  case True
  define e where "e = edges g eid"
  define s1 where "s1 = (if s < min_speed then min_speed else s)"
  have s1: "0 < s1" "s1 \<le> base_speed_limit e"
    using True assms(2) by (auto simp: s1_def e_def min_speed_def)
  have eb: "0 \<le> base_length e" "0 < base_speed_limit e"
    "base_length e / base_speed_limit e \<le> ema_travel_time e"
    using assms(1) True by (auto simp: edge_bounded_def e_def)
  have m: "base_length e / base_speed_limit e \<le> base_length e / s1"
    using s1 eb by (simp add: frac_le)
  define alpha :: real where "alpha = (if observation_count e = 0 then 1 else 0.2)"
  have al: "0 \<le> alpha" "alpha \<le> 1" by (auto simp: alpha_def)
  let ?b = "base_length e / base_speed_limit e"
  have "alpha * ?b + (1 - alpha) * ?b \<le> alpha * (base_length e / s1) + (1 - alpha) * ema_travel_time e"
    by (intro add_mono mult_left_mono) (use m eb al in auto)
  moreover have "alpha * ?b + (1 - alpha) * ?b = ?b"
    by (simp only: distrib_right[symmetric]) simp
  ultimately have "?b \<le> alpha * (base_length e / s1) + (1 - alpha) * ema_travel_time e"
    by simp
  then show ?thesis using True eb
    by (simp add: apply_update_def Let_def edge_bounded_def e_def[symmetric] s1_def alpha_def)
qed

lemma apply_updates_bounded:
  assumes "edge_bounded (edges g i)"
    and "\<forall>(eid, s) \<in> set ups. eid = i \<longrightarrow> max s min_speed \<le> base_speed_limit (edges g i)"
  shows "edge_bounded (edges (apply_updates g ups) i)"
  using assms
proof (induction g ups rule: apply_updates.induct)
  case (1 g)
  then show ?case by simp
next
  case (2 g eid speed ups)
  have "edge_bounded (edges (snd (apply_update g eid speed)) i)"
    using "2.prems" by (intro apply_update_bounded) auto
  moreover have "\<forall>(eid', s) \<in> set ups. eid' = i \<longrightarrow>
      max s min_speed \<le> base_speed_limit (edges (snd (apply_update g eid speed)) i)"
    using "2.prems"(2) by (auto simp: apply_update_base)
  ultimately show ?case using "2.IH" by simp
qed

lemma max_speed_loop_ge:
  "i < n \<Longrightarrow> base_speed_limit (edges g (int i)) \<le> max_speed_loop g n"
proof (induction n)
  case 0
  then show ?case by simp
next
  case (Suc n)
  then show ?case by (cases "i = n") (auto simp: Let_def less_Suc_eq)
qed

lemma max_speed_loop_cong:
  "(\<And>i. base_speed_limit (edges g1 i) = base_speed_limit (edges g i)) \<Longrightarrow>
   max_speed_loop g1 n = max_speed_loop g n"
  by (induction n) (simp_all add: Let_def)

text \<open>
  A lower bound that does hold.  After construction by \<^verbatim>\<open>graph_add_edge\<close> with non-negative
  lengths, and after any sequence of \<^verbatim>\<open>apply_update\<close> calls in which every speed observed on
  edge \<open>eid\<close>, clamped up to \<open>1e-6\<close>, is at most the edge's base speed limit, the current
  travel time of \<open>eid\<close> is at least \<open>base_length / base_speed_limit\<close>, and hence at least
  \<open>base_length / max_speed\<close> for the maximal base speed limit that \<^verbatim>\<open>heuristic\<close> computes.
\<close>

lemma travel_time_lower_bound:
  assumes "add_edges g0 es = Some g1"
    and "eid \<in> fst ` set es"
    and "\<forall>(i, from, to, len, sl) \<in> set es. 0 \<le> len"
    and "\<forall>(i, s) \<in> set ups. i = eid \<longrightarrow> max s min_speed \<le> base_speed_limit (edges g1 eid)"
  shows "base_length (edges (apply_updates g1 ups) eid)
           / base_speed_limit (edges (apply_updates g1 ups) eid)
         \<le> current_travel_time (edges (apply_updates g1 ups) eid)
       \<and> base_length (edges (apply_updates g1 ups) eid)
           / max_speed_loop (apply_updates g1 ups) (nat (num_edges (apply_updates g1 ups)))
         \<le> current_travel_time (edges (apply_updates g1 ups) eid)"
proof -
  let ?g = "apply_updates g1 ups"
  have b1: "edge_bounded (edges g1 eid)"
    using add_edges_bounded[OF assms(1) assms(3)] assms(2) by blast
  have b: "edge_bounded (edges ?g eid)"
    using apply_updates_bounded[OF b1] assms(4) by blast
  then have 1: "base_length (edges ?g eid) / base_speed_limit (edges ?g eid)
         \<le> current_travel_time (edges ?g eid)"
    by (simp add: edge_bounded_def)
  have r: "0 \<le> eid \<and> eid < num_edges g1"
    using add_edges_valid[OF assms(1)] assms(2) by auto
  then have "nat eid < nat (num_edges ?g)" by (simp add: apply_updates_num_edges)
  from max_speed_loop_ge[OF this, of ?g] r
  have "base_speed_limit (edges ?g eid) \<le> max_speed_loop ?g (nat (num_edges ?g))" by simp
  moreover have "0 < base_speed_limit (edges ?g eid)" "0 \<le> base_length (edges ?g eid)"
    using b by (auto simp: edge_bounded_def)
  ultimately have "base_length (edges ?g eid) / max_speed_loop ?g (nat (num_edges ?g))
      \<le> base_length (edges ?g eid) / base_speed_limit (edges ?g eid)"
    by (simp add: frac_le)
  with 1 show ?thesis by linarith
qed

lemma word_count_suc:
  fixes c :: "32 word"
  assumes "unat c + 1 < 2 ^ 32"
  shows "unat (c + 1) = unat c + 1"
  using assms unat_add_lem[of c 1] by simp

lemma word_count_sint:
  fixes c :: "32 word"
  assumes "unat c < 2 ^ 31"
  shows "sint c = int (unat c)"
proof -
  have "int (unat c) < int (2 ^ 31)" using assms by (rule iffD2[OF of_nat_less_iff])
  then have u: "int (unat c) < 2 ^ 31" by simp
  have l: "- (2 ^ 31) \<le> int (unat c)" by (rule order_trans[of _ 0]) simp_all
  have "signed_take_bit 31 (int (unat c)) = int (unat c)"
    using l u by (rule signed_take_bit_int_eq_self)
  then have "signed_take_bit 31 (uint c) = int (unat c)" by (simp only: uint_nat)
  moreover have "sint c = signed_take_bit (LENGTH(32) - Suc 0) (uint c)"
    by (rule sint_uint)
  then have "sint c = signed_take_bit 31 (uint c)"
    by (simp only: len_num1 len_bit0 mult_numeral_left_semiring_numeral  mult_2 one_add_one
        numeral_plus_numeral) simp
  ultimately show ?thesis by (rule trans[rotated])
qed

lemma apply_update_ok:
  assumes "0 \<le> eid" "eid < num_edges g" "0 < s"
  shows "ema_travel_time (edges (snd (apply_update g eid s)) eid)
           = (if observation_count (edges g eid) = 0 then 1 else 0.2)
               * (base_length (edges g eid) / max s min_speed)
             + (1 - (if observation_count (edges g eid) = 0 then 1 else 0.2))
               * ema_travel_time (edges g eid)"
    and "current_travel_time (edges (snd (apply_update g eid s)) eid)
           = ema_travel_time (edges (snd (apply_update g eid s)) eid)"
    and "observation_count (edges (snd (apply_update g eid s)) eid)
           = observation_count (edges g eid) + 1"
  using assms by (auto simp: apply_update_def Let_def max_def)

lemma ema_later:
  assumes "0 \<le> eid" "eid < num_edges g"
    and "\<forall>(i, s) \<in> set ups. i = eid \<longrightarrow> 0 < s"
    and "0 < unat (observation_count (edges g eid))"
    and "unat (observation_count (edges g eid)) + length (own_speeds eid ups) < 2 ^ 32"
    and "current_travel_time (edges g eid) = ema_travel_time (edges g eid)"
  shows "current_travel_time (edges (apply_updates g ups) eid)
           = ema_spec (base_length (edges g eid)) False (ema_travel_time (edges g eid))
               (own_speeds eid ups)
         \<and> ema_travel_time (edges (apply_updates g ups) eid)
           = current_travel_time (edges (apply_updates g ups) eid)
         \<and> unat (observation_count (edges (apply_updates g ups) eid))
           = unat (observation_count (edges g eid)) + length (own_speeds eid ups)"
  using assms
proof (induction g ups rule: apply_updates.induct)
  case (1 g)
  then show ?case by (simp add: own_speeds_def)
next
  case (2 g i s ups)
  let ?g = "snd (apply_update g i s)"
  have ne: "num_edges ?g = num_edges g" by (rule apply_update_num_edges)
  have rest: "\<forall>(i, s) \<in> set ups. i = eid \<longrightarrow> 0 < s" using "2.prems"(3) by auto
  show ?case
  proof (cases "i = eid")
    case False
    then have same: "edges ?g eid = edges g eid" by (simp add: apply_update_other)
    have sp: "own_speeds eid ((i, s) # ups) = own_speeds eid ups"
      using False by (simp add: own_speeds_def)
    show ?thesis
      using "2.IH"[OF "2.prems"(1)] "2.prems" rest by (simp add: same sp ne)
  next
    case True
    then have s: "0 < s" using "2.prems"(3) by auto
    have sp: "own_speeds eid ((i, s) # ups) = s # own_speeds eid ups"
      using True by (simp add: own_speeds_def)
    note upd = apply_update_ok[OF "2.prems"(1,2) s]
    have c0: "observation_count (edges g eid) \<noteq> 0"
      using "2.prems"(4) by (auto simp: unat_eq_zero)
    have cnt: "unat (observation_count (edges ?g eid)) = unat (observation_count (edges g eid)) + 1"
      unfolding True upd(3) using "2.prems"(5) by (intro word_count_suc) (simp add: sp)
    have p2: "eid < num_edges ?g" using "2.prems"(2) by (simp only: ne)
    have p4: "0 < unat (observation_count (edges ?g eid))" by (simp only: cnt)
    have p5: "unat (observation_count (edges ?g eid)) + length (own_speeds eid ups) < 2 ^ 32"
      using "2.prems"(5) by (simp add: cnt sp)
    have p6: "current_travel_time (edges ?g eid) = ema_travel_time (edges ?g eid)"
      using upd(2) by (simp add: True)
    note IH = "2.IH"[OF "2.prems"(1) p2 rest p4 p5 p6]
    have e1: "ema_travel_time (edges ?g eid)
        = 0.2 * (base_length (edges g eid) / max s (1 / 1000000)) + (1 - 0.2) * ema_travel_time (edges g eid)"
      using upd(1) c0 by (simp add: True min_speed_def)
    show ?thesis
      using IH by (simp add: sp cnt e1 apply_update_base)
  qed
qed

text \<open>
  Claim C3.  From an edge with no observation yet, the positive speeds observed on it
  (possibly between updates of other edges) leave the current travel time equal to the
  recurrence of the specification applied to them in order, with weight 1 on the first and
  0.2 on every later one; after an update the current travel time is the moving average,
  and the observation count is the number of updates.  The count is a C \<^verbatim>\<open>int\<close>: the
  statement is for fewer than \<open>2^31\<close> updates, beyond which the increment overflows.
\<close>

theorem ema_recurrence:
  assumes "0 \<le> eid" "eid < num_edges g"
    and "observation_count (edges g eid) = 0"
    and "\<forall>(i, s) \<in> set ups. i = eid \<longrightarrow> 0 < s"
    and "length (own_speeds eid ups) < 2 ^ 31"
  shows "current_travel_time (edges (apply_updates g ups) eid)
           = ema_spec (base_length (edges g eid)) True (current_travel_time (edges g eid))
               (own_speeds eid ups)
         \<and> (own_speeds eid ups \<noteq> [] \<longrightarrow>
              current_travel_time (edges (apply_updates g ups) eid)
                = ema_travel_time (edges (apply_updates g ups) eid))
         \<and> sint (observation_count (edges (apply_updates g ups) eid))
           = int (length (own_speeds eid ups))"
  using assms
proof (induction g ups rule: apply_updates.induct)
  case (1 g)
  then show ?case by (simp add: own_speeds_def)
next
  case (2 g i s ups)
  let ?g = "snd (apply_update g i s)"
  have ne: "num_edges ?g = num_edges g" by (rule apply_update_num_edges)
  have rest: "\<forall>(i, s) \<in> set ups. i = eid \<longrightarrow> 0 < s" using "2.prems"(4) by auto
  show ?case
  proof (cases "i = eid")
    case False
    then have same: "edges ?g eid = edges g eid" by (simp add: apply_update_other)
    have sp: "own_speeds eid ((i, s) # ups) = own_speeds eid ups"
      using False by (simp add: own_speeds_def)
    have q2: "eid < num_edges ?g" using "2.prems"(2) by (simp only: ne)
    have q3: "observation_count (edges ?g eid) = 0" using "2.prems"(3) by (simp only: same)
    have q5: "length (own_speeds eid ups) < 2 ^ 31" using "2.prems"(5) by (simp only: sp)
    show ?thesis
      using "2.IH"[OF "2.prems"(1) q2 q3 rest q5] by (auto simp: same sp)
  next
    case True
    then have s: "0 < s" using "2.prems"(4) by auto
    have sp: "own_speeds eid ((i, s) # ups) = s # own_speeds eid ups"
      using True by (simp add: own_speeds_def)
    note upd = apply_update_ok[OF "2.prems"(1,2) s]
    have cnt: "unat (observation_count (edges ?g eid)) = 1"
      using upd(3) "2.prems"(3) by (simp add: True)
    have len: "length (own_speeds eid ups) < 2 ^ 31 - 1"
      using "2.prems"(5) by (simp add: sp)
    have p2: "eid < num_edges ?g" using "2.prems"(2) by (simp only: ne)
    have p4: "0 < unat (observation_count (edges ?g eid))" by (simp only: cnt)
    have p5: "unat (observation_count (edges ?g eid)) + length (own_speeds eid ups) < 2 ^ 32"
      using len by (simp add: cnt)
    have p6: "current_travel_time (edges ?g eid) = ema_travel_time (edges ?g eid)"
      using upd(2) by (simp add: True)
    note L = ema_later[OF "2.prems"(1) p2 rest p4 p5 p6]
    have e1: "ema_travel_time (edges ?g eid) = base_length (edges g eid) / max s (1 / 1000000)"
      using upd(1) "2.prems"(3) by (simp add: True min_speed_def)
    have "unat (observation_count (edges (apply_updates ?g ups) eid)) < 2 ^ 31"
      using L len by (simp add: cnt)
    from word_count_sint[OF this]
    have "sint (observation_count (edges (apply_updates ?g ups) eid))
        = int (Suc (length (own_speeds eid ups)))"
      using L by (simp add: cnt)
    then show ?thesis
      using L by (simp add: sp e1 apply_update_base)
  qed
qed

lemma one_edge_graph_simps:
  "num_edges one_edge_graph = 1" "num_nodes one_edge_graph = 2"
  "edges one_edge_graph 0 = \<lparr> edge_id = 0, from_node = 0, to_node = 1, base_length = 4,
      base_speed_limit = 1, current_travel_time = 4, ema_travel_time = 4, observation_count = 0 \<rparr>"
  by (simp_all add: one_edge_graph_def build_graph_def graph_init_def MAX_NODES_def
      graph_set_node_coordinates_def graph_add_edge_def zero_graph_def zero_edge_def)

theorem ema_recurrence_witness:
  "num_edges one_edge_graph = 1
   \<and> observation_count (edges one_edge_graph 0) = 0
   \<and> own_speeds 0 [(0, 8), (1, 3), (0, 2)] = [8, 2]
   \<and> current_travel_time (edges (apply_updates one_edge_graph [(0, 8), (1, 3), (0, 2)]) 0) = 4 / 5
   \<and> ema_travel_time (edges (apply_updates one_edge_graph [(0, 8), (1, 3), (0, 2)]) 0) = 4 / 5
   \<and> sint (observation_count (edges (apply_updates one_edge_graph [(0, 8), (1, 3), (0, 2)]) 0)) = 2"
  using ema_recurrence[of 0 one_edge_graph "[(0, 8), (1, 3), (0, 2)]"]
  by (simp add: one_edge_graph_simps own_speeds_def)

lemma sqrt_16: "sqrt 16 = 4"
  using real_sqrt_abs[of 4] by simp

text \<open>
  Claim C2.  The code does not keep the bound: \<^verbatim>\<open>apply_update\<close> accepts an observed speed
  above the speed limit.  On the graph with the nodes 0 at \<open>(0, 0)\<close> and 1 at \<open>(4, 0)\<close> and the
  edge 0 from node 0 to node 1 of length 4 and speed limit 1, \<^verbatim>\<open>UPD 0 8\<close> is acknowledged and
  leaves the travel time \<open>1/2\<close>, below \<open>base_length / base_speed_limit = 4\<close> and below
  \<open>base_length / max_speed = 4\<close>; the heuristic from node 0 to node 1 is then 4, above the
  travel time \<open>1/2\<close> of the edge that leads there.
\<close>

theorem travel_time_below_bound:
  "fst (apply_update one_edge_graph 0 8) = ''ACK'' @ [NL]
   \<and> current_travel_time (edges (snd (apply_update one_edge_graph 0 8)) 0) = 1 / 2
   \<and> base_length (edges (snd (apply_update one_edge_graph 0 8)) 0)
       / base_speed_limit (edges (snd (apply_update one_edge_graph 0 8)) 0) = 4
   \<and> max_speed_loop (snd (apply_update one_edge_graph 0 8))
        (nat (num_edges (snd (apply_update one_edge_graph 0 8)))) = 1
   \<and> heuristic (snd (apply_update one_edge_graph 0 8)) 0 1 = Some 4"
proof -
  have n: "node_x (nodes one_edge_graph 0) = 0" "node_y (nodes one_edge_graph 0) = 0"
    "node_x (nodes one_edge_graph 1) = 4" "node_y (nodes one_edge_graph 1) = 0"
    by (simp_all add: one_edge_graph_def build_graph_def graph_init_def MAX_NODES_def
        graph_set_node_coordinates_def graph_add_edge_def zero_graph_def zero_edge_def)
  show ?thesis
    by (simp add: one_edge_graph_simps apply_update_def min_speed_def Let_def heuristic_def n
        sqrt_16 DBL_MAX_def INFINITY_def)
qed

lemma repeat_update_keeps:
  "num_edges (repeat_update g eid s k) = num_edges g"
  "base_length (edges (repeat_update g eid s k) i) = base_length (edges g i)"
  by (induction k) (simp_all add: apply_update_num_edges apply_update_base)

text \<open>
  Claim C9, as amended.  Repeating \<^verbatim>\<open>UPD eid s\<close> with a fixed positive speed moves the moving
  average monotonically towards \<open>base_length / max s 1e-6\<close> (the speed is clamped up to
  \<open>1e-6\<close>): each update multiplies the distance to that value by \<open>1 - alpha\<close>, with
  \<open>alpha = 1\<close> when the edge has no observation yet and \<open>0.2\<close> otherwise, and the average
  never crosses it.
\<close>

theorem ema_converges:
  assumes "0 \<le> eid" "eid < num_edges g" "0 < s"
  shows "let m = base_length (edges g eid) / max s min_speed;
             a = ema_travel_time (edges (repeat_update g eid s k) eid);
             b = ema_travel_time (edges (repeat_update g eid s (Suc k)) eid);
             alpha = (if observation_count (edges (repeat_update g eid s k) eid) = 0
                      then 1 else 0.2)
         in \<bar>b - m\<bar> = (1 - alpha) * \<bar>a - m\<bar> \<and> \<bar>b - m\<bar> \<le> \<bar>a - m\<bar>
            \<and> (a \<le> m \<longrightarrow> a \<le> b \<and> b \<le> m) \<and> (m \<le> a \<longrightarrow> m \<le> b \<and> b \<le> a)"
proof -
  let ?g = "repeat_update g eid s k"
  define m where "m = base_length (edges g eid) / max s min_speed"
  define a where "a = ema_travel_time (edges ?g eid)"
  define b where "b = ema_travel_time (edges (repeat_update g eid s (Suc k)) eid)"
  define alpha :: real where
    "alpha = (if observation_count (edges ?g eid) = 0 then 1 else 0.2)"
  have al: "0 \<le> 1 - alpha" "1 - alpha \<le> 1" by (auto simp: alpha_def)
  have al0: "0 \<le> alpha" by (auto simp: alpha_def)
  have v: "eid < num_edges ?g" using assms(2) by (simp add: repeat_update_keeps)
  have "b = alpha * m + (1 - alpha) * a"
    using apply_update_ok(1)[OF assms(1) v assms(3)]
    by (simp add: a_def b_def m_def alpha_def repeat_update_keeps)
  then have d: "b - m = (1 - alpha) * (a - m)" by (simp add: algebra_simps)
  have 1: "\<bar>b - m\<bar> = (1 - alpha) * \<bar>a - m\<bar>"
    using al(1) by (simp add: d abs_mult)
  have 2: "\<bar>b - m\<bar> \<le> \<bar>a - m\<bar>"
    unfolding 1 using al(2) by (intro mult_left_le_one_le) (use al in auto)
  have 3: "a \<le> m \<longrightarrow> a \<le> b \<and> b \<le> m"
  proof
    assume "a \<le> m"
    then have "a - m \<le> 0" by simp
    then have "(1 - alpha) * (a - m) \<le> 0" "alpha * (a - m) \<le> 0"
      using al al0 by (auto simp: mult_le_0_iff)
    then show "a \<le> b \<and> b \<le> m" using d by (simp add: algebra_simps)
  qed
  have 4: "m \<le> a \<longrightarrow> m \<le> b \<and> b \<le> a"
  proof
    assume "m \<le> a"
    then have "0 \<le> a - m" by simp
    then have "0 \<le> (1 - alpha) * (a - m)" "0 \<le> alpha * (a - m)"
      using al al0 by auto
    then show "m \<le> b \<and> b \<le> a" using d by (simp add: algebra_simps)
  qed
  show ?thesis
    using 1 2 3 4 unfolding Let_def m_def a_def b_def alpha_def by blast
qed

theorem ema_converges_witness:
  "(0::int) \<le> 0 \<and> 0 < num_edges one_edge_graph \<and> (0::real) < 2
   \<and> \<bar>ema_travel_time (edges (repeat_update one_edge_graph 0 2 (Suc 1)) 0) - 2\<bar>
       = (1 - 0.2) * \<bar>ema_travel_time (edges (repeat_update one_edge_graph 0 2 1) 0) - 2\<bar>"
  using ema_converges[of 0 one_edge_graph 2 1]
  by (simp add: one_edge_graph_simps apply_update_def Let_def min_speed_def)

text \<open>
  Claim C9 as stated fails for a positive speed below \<open>1e-6\<close>: with \<open>s = 2^-20\<close> on the edge
  of length 4 the average is \<open>4000000\<close> after the first and after the second update, and
  does not approach \<open>base_length / s = 4194304\<close>.
\<close>

theorem ema_converges_counterexample:
  "ema_travel_time (edges (repeat_update one_edge_graph 0 (1 / 2 ^ 20) 1) 0) = 4000000
   \<and> ema_travel_time (edges (repeat_update one_edge_graph 0 (1 / 2 ^ 20) 2) 0) = 4000000
   \<and> base_length (edges one_edge_graph 0) / (1 / 2 ^ 20) = 4194304"
  by (simp add: one_edge_graph_simps apply_update_def Let_def min_speed_def numeral_2_eq_2)

text \<open>
  Claim C5.  \<^verbatim>\<open>apply_update\<close> answers \<^verbatim>\<open>ERR BAD_EDGE\<close> exactly when the edge id is outside
  \<open>[0, num_edges)\<close>; for an edge id in range it answers \<^verbatim>\<open>ERR BAD_SPEED\<close> exactly when the
  speed is not positive; a positive speed below \<open>1e-6\<close> is accepted and treated as \<open>1e-6\<close>;
  and whenever the answer is not \<^verbatim>\<open>ACK\<close> the graph, with every field of every edge, is
  unchanged.
\<close>

theorem apply_update_errors:
  "(fst (apply_update g eid speed) = ''ERR BAD_EDGE'' @ [NL] \<longleftrightarrow> (eid < 0 \<or> eid \<ge> num_edges g))
   \<and> (0 \<le> eid \<and> eid < num_edges g \<longrightarrow>
        (fst (apply_update g eid speed) = ''ERR BAD_SPEED'' @ [NL] \<longleftrightarrow> speed \<le> 0))
   \<and> (0 \<le> eid \<and> eid < num_edges g \<and> 0 < speed \<and> speed < min_speed \<longrightarrow>
        fst (apply_update g eid speed) = ''ACK'' @ [NL]
        \<and> apply_update g eid speed = apply_update g eid min_speed)
   \<and> (fst (apply_update g eid speed) \<noteq> ''ACK'' @ [NL] \<longrightarrow> snd (apply_update g eid speed) = g)"
  by (simp add: apply_update_def Let_def min_speed_def)

theorem apply_update_errors_witness:
  "fst (apply_update one_edge_graph 7 1) = ''ERR BAD_EDGE'' @ [NL]
   \<and> fst (apply_update one_edge_graph 0 (-1)) = ''ERR BAD_SPEED'' @ [NL]
   \<and> fst (apply_update one_edge_graph 0 (1 / 2 ^ 20)) = ''ACK'' @ [NL]
   \<and> apply_update one_edge_graph 0 (1 / 2 ^ 20) = apply_update one_edge_graph 0 min_speed
   \<and> snd (apply_update one_edge_graph 7 1) = one_edge_graph
   \<and> snd (apply_update one_edge_graph 0 (-1)) = one_edge_graph"
  using apply_update_errors[of one_edge_graph 7 1] apply_update_errors[of one_edge_graph 0 "-1"]
    apply_update_errors[of one_edge_graph 0 "1 / 2 ^ 20"]
  by (auto simp: one_edge_graph_simps min_speed_def)
section \<open>Properties of the indexed min-heap\<close>

lemma valid_heap_alt: "valid_heap h \<longleftrightarrow> heap_size h \<le> capacity h \<and> pos_ok h \<and> heap_order h"
  by (simp add: valid_heap_def pos_ok_def heap_order_def)


lemma pos_ok_distinct:
  assumes "pos_ok h" "i < heap_size h" "j < heap_size h"
    and "heap_node_id (array h i) = heap_node_id (array h j)"
  shows "i = j"
  using assms unfolding pos_ok_def by metis

lemma exchange_pos_ok:
  assumes "pos_ok h" "i < heap_size h" "j < heap_size h"
  shows "pos_ok (exchange h i j)"
  unfolding pos_ok_def
proof (intro allI impI)
  fix k assume k: "k < heap_size (exchange h i j)"
  then have k': "k < heap_size h" by simp
  note d = pos_ok_distinct[OF assms(1)]
  have pk: "pos h (heap_node_id (array h k)) = k" using assms(1) k' by (simp add: pos_ok_def)
  show "pos (exchange h i j) (heap_node_id (array (exchange h i j) k)) = k"
  proof (cases "k = i")
    case True
    then show ?thesis by (simp add: exchange_def Let_def)
  next
    case ki: False
    show ?thesis
    proof (cases "k = j")
      case True
      then show ?thesis using ki d[OF assms(2,3)] by (auto simp: exchange_def Let_def)
    next
      case False
      then show ?thesis using ki d[OF k' assms(2)] d[OF k' assms(3)] pk
        by (auto simp: exchange_def Let_def)
    qed
  qed
qed

lemma smallest_of_cases:
  "smallest_of h idx = idx \<or> smallest_of h idx = 2 * idx + 1 \<or> smallest_of h idx = 2 * idx + 2"
  by (simp add: smallest_of_def Let_def)

lemma smallest_of_lt:
  "smallest_of h idx \<noteq> idx \<Longrightarrow> idx < smallest_of h idx \<and> smallest_of h idx < heap_size h"
  by (auto simp: smallest_of_def Let_def split: if_splits)

lemma smallest_of_le:
  "dist (array h (smallest_of h idx)) \<le> dist (array h idx)"
  "2 * idx + 1 < heap_size h \<Longrightarrow> dist (array h (smallest_of h idx)) \<le> dist (array h (2 * idx + 1))"
  "2 * idx + 2 < heap_size h \<Longrightarrow> dist (array h (smallest_of h idx)) \<le> dist (array h (2 * idx + 2))"
  by (auto simp: smallest_of_def Let_def)

lemma child_cases:
  fixes i p :: nat
  shows "0 < i \<Longrightarrow> (i - 1) div 2 = p \<longleftrightarrow> i = 2 * p + 1 \<or> i = 2 * p + 2"
  by arith



lemma minHeapify_pos_ok:
  "pos_ok h \<Longrightarrow> pos_ok (minHeapify h idx)"
proof (induction h idx rule: minHeapify.induct)
  case (1 h idx)
  show ?case
  proof (cases "smallest_of h idx = idx")
    case True
    then show ?thesis using "1.prems" by (subst minHeapify.simps) simp
  next
    case False
    note lt = smallest_of_lt[OF False]
    have "pos_ok (exchange h (smallest_of h idx) idx)"
      using "1.prems" lt by (intro exchange_pos_ok) auto
    then have "pos_ok (minHeapify (exchange h (smallest_of h idx) idx) (smallest_of h idx))"
      by (intro "1.IH"[OF False])
    then show ?thesis using False by (subst minHeapify.simps) simp
  qed
qed

lemma down_ok_done:
  assumes "down_ok h idx" "smallest_of h idx = idx"
  shows "heap_order h"
  unfolding heap_order_def
proof (intro allI impI)
  fix i assume i: "0 < i \<and> i < heap_size h"
  show "dist (array h ((i - 1) div 2)) \<le> dist (array h i)"
  proof (cases "(i - 1) div 2 = idx")
    case False
    then show ?thesis using assms(1) i by (simp add: down_ok_def)
  next
    case True
    then have "i = 2 * idx + 1 \<or> i = 2 * idx + 2" using i child_cases[of i idx] by blast
    then show ?thesis using smallest_of_le(2,3)[of idx h] i assms(2) True by auto
  qed
qed

lemma down_ok_step:
  assumes "down_ok h idx" "smallest_of h idx \<noteq> idx"
  shows "down_ok (exchange h (smallest_of h idx) idx) (smallest_of h idx)"
proof -
  let ?s = "smallest_of h idx"
  let ?h = "exchange h ?s idx"
  note lt = smallest_of_lt[OF assms(2)]
  have sc: "?s = 2 * idx + 1 \<or> ?s = 2 * idx + 2"
    using smallest_of_cases[of h idx] assms(2) by auto
  then have sp: "(?s - 1) div 2 = idx" "0 < ?s" by auto
  have key: "\<And>k. dist (array ?h k) = (if k = ?s then dist (array h idx)
       else if k = idx then dist (array h ?s) else dist (array h k))"
    using lt by auto
  show ?thesis
    unfolding down_ok_def
  proof (intro conjI allI impI)
    fix i assume i: "0 < i \<and> i < heap_size ?h \<and> (i - 1) div 2 \<noteq> ?s"
    then have i': "0 < i" "i < heap_size h" "(i - 1) div 2 \<noteq> ?s" by auto
    show "dist (array ?h ((i - 1) div 2)) \<le> dist (array ?h i)"
    proof (cases "(i - 1) div 2 = idx")
      case True
      then have ic: "i = 2 * idx + 1 \<or> i = 2 * idx + 2" using i' child_cases[of i idx] by blast
      have "i \<noteq> idx" using ic by auto
      show ?thesis
      proof (cases "i = ?s")
        case True
        then show ?thesis using sp smallest_of_le(1)[of h idx] lt by (simp add: key)
      next
        case False
        then show ?thesis using ic True \<open>i \<noteq> idx\<close> smallest_of_le(2,3)[of idx h] i'
          by (auto simp: key)
      qed
    next
      case False
      note np = False
      have ns: "i \<noteq> ?s" using sp False by auto
      show ?thesis
      proof (cases "i = idx")
        case True
        then have "0 < idx" using i' by simp
        then have "dist (array h ((idx - 1) div 2)) \<le> dist (array h ?s)"
          using assms(1) sp lt unfolding down_ok_def by blast
        moreover have "(idx - 1) div 2 \<noteq> idx" "(idx - 1) div 2 \<noteq> ?s"
          using \<open>0 < idx\<close> lt by auto
        ultimately show ?thesis using True by (simp add: key)
      next
        case False
        have "dist (array h ((i - 1) div 2)) \<le> dist (array h i)"
          using assms(1) i' np unfolding down_ok_def by blast
        then show ?thesis using False ns np i'(3) by (simp add: key)
      qed
    qed
  next
    fix i assume i: "0 < i \<and> i < heap_size ?h \<and> (i - 1) div 2 = ?s \<and> 0 < ?s"
    then have i': "0 < i" "i < heap_size h" "(i - 1) div 2 = ?s" by auto
    have "(i - 1) div 2 \<noteq> idx" using i' lt by auto
    then have "dist (array h ?s) \<le> dist (array h i)"
      using assms(1) i' unfolding down_ok_def by (metis)
    moreover have "i \<noteq> ?s" "i \<noteq> idx" using i' lt by auto
    ultimately show "dist (array ?h ((?s - 1) div 2)) \<le> dist (array ?h i)"
      using sp lt by (simp add: key)
  qed
qed

lemma minHeapify_heap_order:
  "down_ok h idx \<Longrightarrow> heap_order (minHeapify h idx)"
proof (induction h idx rule: minHeapify.induct)
  case (1 h idx)
  show ?case
  proof (cases "smallest_of h idx = idx")
    case True
    then show ?thesis using down_ok_done[OF "1.prems" True] by (subst minHeapify.simps) simp
  next
    case False
    from "1.IH"[OF False down_ok_step[OF "1.prems" False]]
    show ?thesis using False by (subst minHeapify.simps) simp
  qed
qed

lemma parent_lt: fixes i :: nat shows "0 < i \<Longrightarrow> (i - 1) div 2 < i"
  by arith

lemma up_ok_done:
  assumes "up_ok h i" "\<not> (i \<noteq> 0 \<and> dist (array h i) < dist (array h ((i - 1) div 2)))"
  shows "heap_order h"
  unfolding heap_order_def
proof (intro allI impI)
  fix k assume k: "0 < k \<and> k < heap_size h"
  show "dist (array h ((k - 1) div 2)) \<le> dist (array h k)"
  proof (cases "k = i")
    case True
    then show ?thesis using assms(2) k by auto
  next
    case False
    then show ?thesis using assms(1) k by (simp add: up_ok_def)
  qed
qed

lemma up_ok_step:
  assumes "up_ok h i" "i < heap_size h" "i \<noteq> 0" "dist (array h i) < dist (array h ((i - 1) div 2))"
  shows "up_ok (exchange h i ((i - 1) div 2)) ((i - 1) div 2)"
proof -
  let ?p = "(i - 1) div 2"
  let ?h = "exchange h i ?p"
  have pi: "?p < i" using assms(3) by (intro parent_lt) simp
  have key: "\<And>k. dist (array ?h k) = (if k = ?p then dist (array h i)
       else if k = i then dist (array h ?p) else dist (array h k))"
    using pi by auto
  have A: "\<And>k. 0 < k \<Longrightarrow> k < heap_size h \<Longrightarrow> k \<noteq> i \<Longrightarrow>
      dist (array h ((k - 1) div 2)) \<le> dist (array h k)"
    using assms(1) unfolding up_ok_def by blast
  have B: "\<And>k. 0 < k \<Longrightarrow> k < heap_size h \<Longrightarrow> (k - 1) div 2 = i \<Longrightarrow>
      dist (array h ?p) \<le> dist (array h k)"
    using assms(1,3) unfolding up_ok_def by blast
  show ?thesis
    unfolding up_ok_def
  proof (intro conjI allI impI)
    fix k assume "0 < k \<and> k < heap_size ?h \<and> k \<noteq> ?p"
    then have k: "0 < k" "k < heap_size h" "k \<noteq> ?p" by auto
    have kk: "(k - 1) div 2 < k" using k(1) by (rule parent_lt)
    show "dist (array ?h ((k - 1) div 2)) \<le> dist (array ?h k)"
    proof (cases "k = i")
      case True
      then show ?thesis using assms(4) pi by (simp add: key)
    next
      case ki: False
      show ?thesis
      proof (cases "(k - 1) div 2 = ?p")
        case True
        then show ?thesis using A[OF k(1,2) ki] assms(4) ki k(3) by (simp add: key)
      next
        case np: False
        show ?thesis
        proof (cases "(k - 1) div 2 = i")
          case True
          then show ?thesis using B[OF k(1,2) True] ki k(3) pi by (simp add: key)
        next
          case False
          then show ?thesis using A[OF k(1,2) ki] ki k(3) np by (simp add: key)
        qed
      qed
    qed
  next
    fix k assume "0 < k \<and> k < heap_size ?h \<and> (k - 1) div 2 = ?p \<and> 0 < ?p"
    then have k: "0 < k" "k < heap_size h" "(k - 1) div 2 = ?p" "0 < ?p" by auto
    have pp: "(?p - 1) div 2 < ?p" using k(4) by (rule parent_lt)
    have P: "dist (array h ((?p - 1) div 2)) \<le> dist (array h ?p)"
      using A[of ?p] k(4) pi assms(2) by simp
    have kp: "k \<noteq> ?p" using parent_lt[OF k(1)] k(3) by simp
    show "dist (array ?h ((?p - 1) div 2)) \<le> dist (array ?h k)"
    proof (cases "k = i")
      case True
      then show ?thesis using P pp pi by (simp add: key)
    next
      case False
      then show ?thesis using A[OF k(1,2) False] P pp pi kp k(3) by (simp add: key)
    qed
  qed
qed





lemma decreaseKey_loop_heap_order:
  "up_ok h i \<Longrightarrow> i < heap_size h \<Longrightarrow> heap_order (decreaseKey_loop h i)"
proof (induction h i rule: decreaseKey_loop.induct)
  case (1 h i)
  show ?case
  proof (cases "i \<noteq> 0 \<and> dist (array h i) < dist (array h ((i - 1) div 2))")
    case False
    then show ?thesis using up_ok_done[OF "1.prems"(1) False] by (simp add: decreaseKey_loop_stop)
  next
    case True
    then have c: "i \<noteq> 0" "dist (array h i) < dist (array h ((i - 1) div 2))" by auto
    have "(i - 1) div 2 < i" using c(1) by (intro parent_lt) simp
    then have "(i - 1) div 2 < heap_size (exchange h i ((i - 1) div 2))"
      using "1.prems"(2) by simp
    from "1.IH"[OF True up_ok_step[OF "1.prems" c] this]
    show ?thesis using True by (simp add: decreaseKey_loop_go)
  qed
qed

lemma decreaseKey_loop_pos_ok:
  "pos_ok h \<Longrightarrow> i < heap_size h \<Longrightarrow> pos_ok (decreaseKey_loop h i)"
proof (induction h i rule: decreaseKey_loop.induct)
  case (1 h i)
  show ?case
  proof (cases "i \<noteq> 0 \<and> dist (array h i) < dist (array h ((i - 1) div 2))")
    case False
    then show ?thesis using "1.prems" by (simp add: decreaseKey_loop_stop)
  next
    case True
    have lt: "(i - 1) div 2 < i" using True by (intro parent_lt) simp
    have "pos_ok (exchange h i ((i - 1) div 2))"
      using "1.prems" lt by (intro exchange_pos_ok) auto
    then have "pos_ok (decreaseKey_loop (exchange h i ((i - 1) div 2)) ((i - 1) div 2))"
      using lt "1.prems"(2) by (intro "1.IH"[OF True]) auto
    then show ?thesis using True by (simp add: decreaseKey_loop_go)
  qed
qed

lemma heap_order_root_min:
  assumes "heap_order h" "i < heap_size h"
  shows "dist (array h 0) \<le> dist (array h i)"
  using assms(2)
proof (induction i rule: less_induct)
  case (less i)
  show ?case
  proof (cases "i = 0")
    case True
    then show ?thesis by simp
  next
    case False
    then have p: "(i - 1) div 2 < i" by (intro parent_lt) simp
    have "dist (array h 0) \<le> dist (array h ((i - 1) div 2))"
      using less.IH[OF p] p less.prems by simp
    also have "\<dots> \<le> dist (array h i)"
      using assms(1) False less.prems by (simp add: heap_order_def)
    finally show ?thesis .
  qed
qed

lemma ids_ok_pos_ok: "ids_ok V h \<Longrightarrow> pos_ok h"
  by (simp add: ids_ok_def pos_ok_def)

lemma same_entries_refl: "same_entries V h h"
  by (simp add: same_entries_def)

lemma same_entries_trans:
  "same_entries V h1 h2 \<Longrightarrow> same_entries V h2 h3 \<Longrightarrow> same_entries V h1 h3"
  unfolding same_entries_def by auto

lemma exchange_ids_ok:
  assumes "ids_ok V h" "i < heap_size h" "j < heap_size h"
  shows "ids_ok V (exchange h i j)" and "same_entries V h (exchange h i j)"
proof -
  let ?h = "exchange h i j"
  let ?a = "heap_node_id (array h i)" and ?b = "heap_node_id (array h j)"
  have po: "pos_ok h" using assms(1) by (rule ids_ok_pos_ok)
  have po': "pos_ok ?h" using po assms(2,3) by (rule exchange_pos_ok)
  have rng: "\<And>k. k < heap_size h \<Longrightarrow> 0 \<le> heap_node_id (array h k) \<and> heap_node_id (array h k) < V"
    and pk: "\<And>k. k < heap_size h \<Longrightarrow> pos h (heap_node_id (array h k)) = k"
    and inv: "\<And>v. 0 \<le> v \<Longrightarrow> v < V \<Longrightarrow> pos h v < heap_size h \<Longrightarrow> heap_node_id (array h (pos h v)) = v"
    using assms(1) by (auto simp: ids_ok_def entry_def)
  have pos': "\<And>v. pos ?h v = (if v = ?b then i else if v = ?a then j else pos h v)"
    by (simp add: exchange_def Let_def)
  have ab: "?a = ?b \<Longrightarrow> i = j" using pos_ok_distinct[OF po assms(2,3)] by simp
  have E: "pos ?h v < heap_size h \<longleftrightarrow> pos h v < heap_size h"
      "pos h v < heap_size h \<Longrightarrow> array ?h (pos ?h v) = array h (pos h v)"
      if v: "0 \<le> v" "v < V" for v
  proof -
    show "pos ?h v < heap_size h \<longleftrightarrow> pos h v < heap_size h"
      using assms(2,3) pk[OF assms(2)] pk[OF assms(3)] by (auto simp: pos')
    assume in_h: "pos h v < heap_size h"
    show "array ?h (pos ?h v) = array h (pos h v)"
    proof (cases "v = ?b")
      case True
      then show ?thesis using pk[OF assms(3)] by (simp add: pos')
    next
      case nb: False
      show ?thesis
      proof (cases "v = ?a")
        case True
        then show ?thesis using nb pk[OF assms(2)] ab by (auto simp: pos')
      next
        case False
        have "pos h v \<noteq> i" "pos h v \<noteq> j" using inv[OF v in_h] False nb by auto
        then show ?thesis using False nb by (simp add: pos')
      qed
    qed
  qed
  show "same_entries V h ?h"
    unfolding same_entries_def entry_def using E by simp
  show "ids_ok V ?h"
    unfolding ids_ok_def entry_def
  proof (intro conjI allI impI)
    fix k assume k: "k < heap_size ?h"
    then show "0 \<le> heap_node_id (array ?h k)" "heap_node_id (array ?h k) < V"
      using rng assms(2,3) by auto
    show "pos ?h (heap_node_id (array ?h k)) = k"
      using po' k by (simp add: pos_ok_def)
  next
    fix v assume v: "0 \<le> v \<and> v < V \<and> pos ?h v < heap_size ?h"
    then have "pos h v < heap_size h" using E(1)[of v] by simp
    then show "heap_node_id (array ?h (pos ?h v)) = v"
      using E(2)[of v] inv[of v] v by simp
  qed
qed



lemma minHeapify_ids_ok:
  "ids_ok V h \<Longrightarrow>
   ids_ok V (minHeapify h idx) \<and> same_entries V h (minHeapify h idx)"
proof (induction h idx rule: minHeapify.induct)
  case (1 h idx)
  show ?case
  proof (cases "smallest_of h idx = idx")
    case True
    then show ?thesis using "1.prems" by (simp add: minHeapify_stop same_entries_refl)
  next
    case False
    note lt = smallest_of_lt[OF False]
    let ?h = "exchange h (smallest_of h idx) idx"
    have e: "ids_ok V ?h" "same_entries V h ?h"
      using exchange_ids_ok[OF "1.prems"(1), of "smallest_of h idx" idx] lt by auto
    from "1.IH"[OF False e(1)] e(2)
    show ?thesis using False by (auto simp: minHeapify_go intro: same_entries_trans)
  qed
qed

lemma decreaseKey_loop_ids_ok:
  "ids_ok V h \<Longrightarrow> i < heap_size h \<Longrightarrow>
   ids_ok V (decreaseKey_loop h i) \<and> same_entries V h (decreaseKey_loop h i)"
proof (induction h i rule: decreaseKey_loop.induct)
  case (1 h i)
  show ?case
  proof (cases "i \<noteq> 0 \<and> dist (array h i) < dist (array h ((i - 1) div 2))")
    case False
    then show ?thesis using "1.prems" by (simp add: decreaseKey_loop_stop same_entries_refl)
  next
    case True
    have lt: "(i - 1) div 2 < i" using True by (intro parent_lt) simp
    let ?h = "exchange h i ((i - 1) div 2)"
    have e: "ids_ok V ?h" "same_entries V h ?h"
      using exchange_ids_ok[OF "1.prems"(1), of i "(i - 1) div 2"] lt "1.prems"(2) by auto
    have "(i - 1) div 2 < heap_size ?h" using lt "1.prems"(2) by simp
    from "1.IH"[OF True e(1) this] e(2)
    show ?thesis using True by (auto simp: decreaseKey_loop_go intro: same_entries_trans)
  qed
qed

lemma extractMin_eq:
  "0 < heap_size h \<Longrightarrow> extractMin h = (Some (array h 0), minHeapify (before_heapify h) 0)"
  by (simp add: extractMin_def isEmpty_def Let_def before_heapify_def)

lemma extractMin_empty: "heap_size h = 0 \<Longrightarrow> extractMin h = (None, h)"
  by (simp add: extractMin_def isEmpty_def)

lemma before_heapify_simps [simp]:
  "heap_size (before_heapify h) = heap_size h - 1"
  "capacity (before_heapify h) = capacity h"
  "array (before_heapify h) = (array h)(0 := array h (heap_size h - 1))"
  "pos (before_heapify h) = (pos h)(heap_node_id (array h 0) := heap_size h - 1,
                       heap_node_id (array h (heap_size h - 1)) := 0)"
  by (simp_all add: before_heapify_def)

lemma before_heapify_pos_ok:
  assumes "pos_ok h"
  shows "pos_ok (before_heapify h)"
  unfolding pos_ok_def
proof (intro allI impI)
  fix k assume "k < heap_size (before_heapify h)"
  then have k: "k < heap_size h - 1" by simp
  note d = pos_ok_distinct[OF assms]
  show "pos (before_heapify h) (heap_node_id (array (before_heapify h) k)) = k"
  proof (cases "k = 0")
    case True
    then show ?thesis by simp
  next
    case False
    have k': "k < heap_size h" "0 < heap_size h" "heap_size h - 1 < heap_size h"
      "k \<noteq> heap_size h - 1" using k by arith+
    have "heap_node_id (array h k) \<noteq> heap_node_id (array h 0)"
      "heap_node_id (array h k) \<noteq> heap_node_id (array h (heap_size h - 1))"
      using d[OF k'(1,2)] d[OF k'(1,3)] k' False by auto
    moreover have "pos h (heap_node_id (array h k)) = k"
      using assms k by (simp add: pos_ok_def)
    ultimately show ?thesis using False by simp
  qed
qed

lemma before_heapify_down_ok:
  assumes "heap_order h"
  shows "down_ok (before_heapify h) 0"
  unfolding down_ok_def
proof (intro conjI allI impI)
  fix i assume i: "0 < i \<and> i < heap_size (before_heapify h) \<and> (i - 1) div 2 \<noteq> 0"
  then have "0 < i \<and> i < heap_size h" by auto
  then have "dist (array h ((i - 1) div 2)) \<le> dist (array h i)"
    using assms unfolding heap_order_def by blast
  then show "dist (array (before_heapify h) ((i - 1) div 2)) \<le> dist (array (before_heapify h) i)"
    using i by simp
qed simp

lemma exchange_pos_outside:
  assumes "\<forall>k < heap_size h. heap_node_id (array h k) \<noteq> v" "i < heap_size h" "j < heap_size h"
  shows "pos (exchange h i j) v = pos h v"
    and "\<forall>k < heap_size (exchange h i j). heap_node_id (array (exchange h i j) k) \<noteq> v"
  using assms by (auto simp: exchange_def Let_def)

lemma minHeapify_pos_outside:
  "\<forall>k < heap_size h. heap_node_id (array h k) \<noteq> v \<Longrightarrow> pos (minHeapify h idx) v = pos h v"
proof (induction h idx rule: minHeapify.induct)
  case (1 h idx)
  show ?case
  proof (cases "smallest_of h idx = idx")
    case True
    then show ?thesis by (simp add: minHeapify_stop)
  next
    case False
    note lt = smallest_of_lt[OF False]
    have lt': "smallest_of h idx < heap_size h" "idx < heap_size h" using lt by auto
    note e = exchange_pos_outside[OF "1.prems" lt']
    from "1.IH"[OF False e(2)] e(1)
    show ?thesis using False by (simp add: minHeapify_go)
  qed
qed

lemma extractMin_valid:
  assumes "valid_heap h" "0 < heap_size h"
  shows "fst (extractMin h) = Some (array h 0)"
    and "\<forall>i < heap_size h. dist (array h 0) \<le> dist (array h i)"
    and "valid_heap (snd (extractMin h))"
    and "heap_size (snd (extractMin h)) = heap_size h - 1"
    and "capacity (snd (extractMin h)) = capacity h"
    and "heap_size (snd (extractMin h)) \<le> pos (snd (extractMin h)) (heap_node_id (array h 0))"
proof -
  have v: "heap_size h \<le> capacity h" "pos_ok h" "heap_order h"
    using assms(1) by (simp_all add: valid_heap_alt)
  let ?b = "before_heapify h"
  note eq = extractMin_eq[OF assms(2)]
  show "fst (extractMin h) = Some (array h 0)" by (simp add: eq)
  show "\<forall>i < heap_size h. dist (array h 0) \<le> dist (array h i)"
    using heap_order_root_min[OF v(3)] by blast
  show "heap_size (snd (extractMin h)) = heap_size h - 1" by (simp add: eq)
  show "capacity (snd (extractMin h)) = capacity h" by (simp add: eq)
  have "pos_ok (minHeapify ?b 0)"
    using before_heapify_pos_ok[OF v(2)] by (rule minHeapify_pos_ok)
  moreover have "heap_order (minHeapify ?b 0)"
    using before_heapify_down_ok[OF v(3)] by (rule minHeapify_heap_order)
  ultimately show "valid_heap (snd (extractMin h))"
    using v(1) by (simp add: eq valid_heap_alt)
  have out: "\<forall>k < heap_size ?b. heap_node_id (array ?b k) \<noteq> heap_node_id (array h 0)"
  proof (intro allI impI)
    fix k assume "k < heap_size ?b"
    then have k: "k < heap_size h - 1" by simp
    then have k': "k < heap_size h" "heap_size h - 1 < heap_size h" "heap_size h - 1 \<noteq> 0"
      by arith+
    show "heap_node_id (array ?b k) \<noteq> heap_node_id (array h 0)"
      using pos_ok_distinct[OF v(2) k'(1) assms(2)] pos_ok_distinct[OF v(2) k'(2) assms(2)] k'(3)
      by (cases "k = 0") auto
  qed
  have "pos (minHeapify ?b 0) (heap_node_id (array h 0)) = pos ?b (heap_node_id (array h 0))"
    using out by (rule minHeapify_pos_outside)
  also have "\<dots> \<ge> heap_size h - 1"
  proof (cases "heap_node_id (array h 0) = heap_node_id (array h (heap_size h - 1))")
    case True
    have "heap_size h - 1 < heap_size h" using assms(2) by arith
    from pos_ok_distinct[OF v(2) assms(2) this True] show ?thesis by simp
  next
    case False
    then show ?thesis by simp
  qed
  finally show "heap_size (snd (extractMin h)) \<le> pos (snd (extractMin h)) (heap_node_id (array h 0))"
    by (simp add: eq)
qed

lemma decreaseKey_valid:
  assumes "valid_heap h" "isInMinHeap h v" "k \<le> dist (array h (pos h v))"
  shows "valid_heap (decreaseKey h v k)"
proof -
  have vh: "heap_size h \<le> capacity h" "pos_ok h" "heap_order h"
    using assms(1) by (simp_all add: valid_heap_alt)
  let ?i = "pos h v"
  let ?h = "h\<lparr> array := (array h)(?i := (array h ?i)\<lparr> dist := k \<rparr>) \<rparr>"
  have i: "?i < heap_size h" using assms(2) by (simp add: isInMinHeap_def)
  have po: "pos_ok ?h" using vh(2) by (auto simp: pos_ok_def)
  have ord: "\<And>j. 0 < j \<Longrightarrow> j < heap_size h \<Longrightarrow> dist (array h ((j - 1) div 2)) \<le> dist (array h j)"
    using vh(3) by (simp add: heap_order_def)
  have up: "up_ok ?h ?i"
    unfolding up_ok_def
  proof (intro conjI allI impI)
    fix j assume "0 < j \<and> j < heap_size ?h \<and> j \<noteq> ?i"
    then have j: "0 < j" "j < heap_size h" "j \<noteq> ?i" by auto
    show "dist (array ?h ((j - 1) div 2)) \<le> dist (array ?h j)"
      using ord[OF j(1,2)] j(3) assms(3) by auto
  next
    fix j assume "0 < j \<and> j < heap_size ?h \<and> (j - 1) div 2 = ?i \<and> 0 < ?i"
    then have j: "0 < j" "j < heap_size h" "(j - 1) div 2 = ?i" "0 < ?i" by auto
    have "j \<noteq> ?i" using parent_lt[OF j(1)] j(3) by simp
    moreover have "(?i - 1) div 2 \<noteq> ?i" using parent_lt[OF j(4)] by simp
    moreover have "dist (array h ((?i - 1) div 2)) \<le> dist (array h j)"
      using ord[OF j(1,2)] ord[OF j(4) i] j(3) by simp
    ultimately show "dist (array ?h ((?i - 1) div 2)) \<le> dist (array ?h j)"
      by simp
  qed
  have "pos_ok (decreaseKey_loop ?h ?i)" using po i by (intro decreaseKey_loop_pos_ok) simp_all
  moreover have "heap_order (decreaseKey_loop ?h ?i)"
    using up i by (intro decreaseKey_loop_heap_order) simp_all
  ultimately show ?thesis using vh(1) by (simp add: decreaseKey_def Let_def valid_heap_alt)
qed

text \<open>
  Claim C10.  On a valid, non-empty heap \<^verbatim>\<open>extractMin\<close> returns an entry of the heap whose key
  is minimal among the entries below the size; afterwards the heap is valid and the \<open>pos\<close>
  of the extracted node is at least the size, so \<^verbatim>\<open>isInMinHeap\<close> reports it outside.
  \<^verbatim>\<open>decreaseKey\<close> of a node that \<^verbatim>\<open>isInMinHeap\<close> reports inside, to a key no larger than its
  current key, preserves validity.
\<close>

theorem heap_operations_valid:
  "(valid_heap h \<and> \<not> isEmpty h \<longrightarrow>
      (\<exists>r. fst (extractMin h) = Some r
         \<and> (\<exists>i < heap_size h. r = array h i)
         \<and> (\<forall>i < heap_size h. dist r \<le> dist (array h i))
         \<and> valid_heap (snd (extractMin h))
         \<and> heap_size (snd (extractMin h)) \<le> pos (snd (extractMin h)) (heap_node_id r)
         \<and> \<not> isInMinHeap (snd (extractMin h)) (heap_node_id r)))
   \<and> (valid_heap h \<and> isInMinHeap h v \<and> k \<le> dist (array h (pos h v)) \<longrightarrow>
        valid_heap (decreaseKey h v k))"
proof (intro conjI impI)
  assume a: "valid_heap h \<and> \<not> isEmpty h"
  then have vh: "valid_heap h" and ne: "0 < heap_size h" by (auto simp: isEmpty_def)
  note e = extractMin_valid[OF vh ne]
  show "\<exists>r. fst (extractMin h) = Some r
         \<and> (\<exists>i < heap_size h. r = array h i)
         \<and> (\<forall>i < heap_size h. dist r \<le> dist (array h i))
         \<and> valid_heap (snd (extractMin h))
         \<and> heap_size (snd (extractMin h)) \<le> pos (snd (extractMin h)) (heap_node_id r)
         \<and> \<not> isInMinHeap (snd (extractMin h)) (heap_node_id r)"
  proof (intro exI[of _ "array h 0"] conjI)
    show "\<exists>i < heap_size h. array h 0 = array h i" using ne by blast
    show "\<not> isInMinHeap (snd (extractMin h)) (heap_node_id (array h 0))"
      using e(6) by (simp add: isInMinHeap_def)
  qed (use e in simp_all)
next
  assume "valid_heap h \<and> isInMinHeap h v \<and> k \<le> dist (array h (pos h v))"
  then show "valid_heap (decreaseKey h v k)" by (intro decreaseKey_valid) auto
qed

lemma three_heap_valid: "valid_heap three_heap"
  by (auto simp: valid_heap_def three_heap_def)

theorem heap_operations_valid_witness:
  "valid_heap three_heap \<and> \<not> isEmpty three_heap
   \<and> fst (extractMin three_heap) = Some \<lparr> heap_node_id = 0, dist = 1 \<rparr>
   \<and> valid_heap (snd (extractMin three_heap))
   \<and> heap_size (snd (extractMin three_heap)) = 2
   \<and> pos (snd (extractMin three_heap)) 0 = 2
   \<and> isInMinHeap three_heap 1 \<and> (0::real) \<le> dist (array three_heap (pos three_heap 1))
   \<and> valid_heap (decreaseKey three_heap 1 0)
   \<and> array (decreaseKey three_heap 1 0) 0 = \<lparr> heap_node_id = 1, dist = 0 \<rparr>"
proof -
  have ne: "\<not> isEmpty three_heap" by (simp add: isEmpty_def three_heap_def)
  have i1: "isInMinHeap three_heap 1" "(0::real) \<le> dist (array three_heap (pos three_heap 1))"
    by (simp_all add: isInMinHeap_def three_heap_def)
  have s0: "smallest_of (before_heapify three_heap) 0 = 0"
    by (simp add: smallest_of_def three_heap_def)
  have ex: "extractMin three_heap = (Some (array three_heap 0), before_heapify three_heap)"
    using s0 by (simp add: extractMin_eq three_heap_def minHeapify_stop)
  define h1 where "h1 = three_heap\<lparr> array := (array three_heap)
      (1 := \<lparr> heap_node_id = 1, dist = 0 \<rparr>) \<rparr>"
  have d1: "decreaseKey three_heap 1 0 = decreaseKey_loop h1 1"
    by (simp add: decreaseKey_def h1_def three_heap_def)
  have d2: "decreaseKey_loop h1 1 = decreaseKey_loop (exchange h1 1 0) 0"
    using decreaseKey_loop_go[of 1 h1] by (simp add: h1_def three_heap_def)
  have d3: "decreaseKey_loop (exchange h1 1 0) 0 = exchange h1 1 0"
    by (rule decreaseKey_loop_stop) simp
  have dk: "array (decreaseKey three_heap 1 0) 0 = \<lparr> heap_node_id = 1, dist = 0 \<rparr>"
    by (simp only: d1 d2 d3) (simp add: h1_def)
  have p0: "pos (before_heapify three_heap) 0 = 2" "heap_size (before_heapify three_heap) = 2"
    by (simp_all add: three_heap_def)
  show ?thesis
    using heap_operations_valid[of three_heap 1 0] three_heap_valid ne i1 dk p0
    by (simp add: ex) (simp add: three_heap_def)
qed

lemma ids_ok_entry:
  "ids_ok V h \<Longrightarrow> 0 \<le> v \<Longrightarrow> v < V \<Longrightarrow> isInMinHeap h v \<Longrightarrow> heap_node_id (entry h v) = v"
  by (simp add: ids_ok_def isInMinHeap_def)

lemma ids_ok_slot:
  "ids_ok V h \<Longrightarrow> i < heap_size h \<Longrightarrow>
   0 \<le> heap_node_id (array h i) \<and> heap_node_id (array h i) < V
   \<and> pos h (heap_node_id (array h i)) = i"
  by (simp add: ids_ok_def)

lemma decreaseKey_spec:
  assumes "valid_heap h" "ids_ok V h" "0 \<le> v" "v < V" "isInMinHeap h v" "k \<le> dist (entry h v)"
  shows "valid_heap (decreaseKey h v k)"
    and "ids_ok V (decreaseKey h v k)"
    and "heap_size (decreaseKey h v k) = heap_size h"
    and "\<And>u. 0 \<le> u \<Longrightarrow> u < V \<Longrightarrow> isInMinHeap (decreaseKey h v k) u \<longleftrightarrow> isInMinHeap h u"
    and "entry (decreaseKey h v k) v = \<lparr> heap_node_id = v, dist = k \<rparr>"
    and "\<And>u. 0 \<le> u \<Longrightarrow> u < V \<Longrightarrow> u \<noteq> v \<Longrightarrow> isInMinHeap h u \<Longrightarrow>
           entry (decreaseKey h v k) u = entry h u"
proof -
  let ?i = "pos h v"
  let ?h1 = "h\<lparr> array := (array h)(?i := (array h ?i)\<lparr> dist := k \<rparr>) \<rparr>"
  let ?h = "decreaseKey h v k"
  have eq: "?h = decreaseKey_loop ?h1 ?i" by (simp add: decreaseKey_def Let_def)
  have i: "?i < heap_size h" using assms(5) by (simp add: isInMinHeap_def)
  have idv: "heap_node_id (array h ?i) = v"
    using ids_ok_entry[OF assms(2,3,4,5)] by (simp add: entry_def)
  show "valid_heap ?h" using assms(1,5,6) by (intro decreaseKey_valid) (simp_all add: entry_def)
  have ok1: "ids_ok V ?h1"
    using assms(2) unfolding ids_ok_def entry_def by auto
  have i1: "?i < heap_size ?h1" using i by simp
  note L = decreaseKey_loop_ids_ok[OF ok1 i1]
  show "ids_ok V ?h" using L by (simp add: eq)
  show "heap_size ?h = heap_size h" by (simp add: eq)
  have se: "same_entries V ?h1 ?h" using L by (simp add: eq)
  show in_eq: "isInMinHeap ?h u \<longleftrightarrow> isInMinHeap h u" if "0 \<le> u" "u < V" for u
    using se that unfolding same_entries_def isInMinHeap_def by simp
  have "entry ?h v = entry ?h1 v"
    using se assms(3,4) i unfolding same_entries_def by simp
  also have "\<dots> = \<lparr> heap_node_id = v, dist = k \<rparr>"
    using idv by (simp add: entry_def)
  finally show "entry ?h v = \<lparr> heap_node_id = v, dist = k \<rparr>" .
  show "entry ?h u = entry h u" if u: "0 \<le> u" "u < V" "u \<noteq> v" "isInMinHeap h u" for u
  proof -
    have pu: "pos h u < heap_size h" using u(4) by (simp add: isInMinHeap_def)
    have "heap_node_id (array h (pos h u)) = u"
      using ids_ok_entry[OF assms(2) u(1,2,4)] by (simp add: entry_def)
    then have "pos h u \<noteq> ?i" using idv u(3) by auto
    then have "entry ?h1 u = entry h u" by (simp add: entry_def)
    moreover have "entry ?h u = entry ?h1 u"
      using se u(1,2) pu unfolding same_entries_def by simp
    ultimately show ?thesis by simp
  qed
qed

lemma before_heapify_ids_ok:
  assumes "ids_ok V h" "0 < heap_size h"
  shows "ids_ok V (before_heapify h)"
    and "\<And>u. 0 \<le> u \<Longrightarrow> u < V \<Longrightarrow> u \<noteq> heap_node_id (array h 0) \<Longrightarrow>
          (isInMinHeap (before_heapify h) u \<longleftrightarrow> isInMinHeap h u)
          \<and> (isInMinHeap h u \<longrightarrow> entry (before_heapify h) u = entry h u)"
proof -
  let ?b = "before_heapify h"
  let ?n = "heap_size h"
  let ?r = "heap_node_id (array h 0)" and ?l = "heap_node_id (array h (?n - 1))"
  have po: "pos_ok h" using assms(1) by (rule ids_ok_pos_ok)
  have po': "pos_ok ?b" using po by (rule before_heapify_pos_ok)
  have n1: "?n - 1 < ?n" using assms(2) by arith
  note sl = ids_ok_slot[OF assms(1)]
  have inv: "\<And>u. 0 \<le> u \<Longrightarrow> u < V \<Longrightarrow> pos h u < ?n \<Longrightarrow> heap_node_id (array h (pos h u)) = u"
    using assms(1) by (simp add: ids_ok_def entry_def)
  have E: "(pos ?b u < ?n - 1 \<longleftrightarrow> pos h u < ?n)
      \<and> (pos h u < ?n \<longrightarrow> array ?b (pos ?b u) = array h (pos h u))"
    if u: "0 \<le> u" "u < V" "u \<noteq> ?r" for u
  proof (cases "u = ?l")
    case True
    then have "?l \<noteq> ?r" using u(3) by simp
    then have "?n - 1 \<noteq> 0" by auto
    then show ?thesis using True sl[OF n1] by simp
  next
    case False
    have a: "pos h u \<noteq> ?n - 1" using inv[OF u(1,2)] False n1 by auto
    have b: "pos h u < ?n \<Longrightarrow> pos h u \<noteq> 0"
    proof
      assume "pos h u < ?n" "pos h u = 0"
      then show False using inv[OF u(1,2)] u(3) by simp
    qed
    have "pos ?b u = pos h u" using False u(3) by simp
    then show ?thesis using a b by auto
  qed
  then show "\<And>u. 0 \<le> u \<Longrightarrow> u < V \<Longrightarrow> u \<noteq> ?r \<Longrightarrow>
          (isInMinHeap ?b u \<longleftrightarrow> isInMinHeap h u)
          \<and> (isInMinHeap h u \<longrightarrow> entry ?b u = entry h u)"
    by (simp add: isInMinHeap_def entry_def)
  show "ids_ok V ?b"
    unfolding ids_ok_def entry_def
  proof (intro conjI allI impI)
    fix k assume "k < heap_size ?b"
    then have k: "k < ?n - 1" by simp
    then have k': "k < ?n" by arith
    show "0 \<le> heap_node_id (array ?b k)" "heap_node_id (array ?b k) < V"
      using sl[OF k'] sl[OF n1] by auto
    show "pos ?b (heap_node_id (array ?b k)) = k"
      using po' k by (simp add: pos_ok_def)
  next
    fix u assume u: "0 \<le> u \<and> u < V \<and> pos ?b u < heap_size ?b"
    show "heap_node_id (array ?b (pos ?b u)) = u"
    proof (cases "u = ?r")
      case True
      have "pos ?b ?r \<ge> ?n - 1"
      proof (cases "?r = ?l")
        case True
        from pos_ok_distinct[OF po assms(2) n1 this] show ?thesis by simp
      next
        case False
        then show ?thesis by simp
      qed
      then show ?thesis using u True by simp
    next
      case False
      then show ?thesis using E[of u] inv[of u] u by auto
    qed
  qed
qed

lemma extractMin_spec:
  assumes "valid_heap h" "ids_ok V h" "0 < heap_size h"
  shows "fst (extractMin h) = Some (array h 0)"
    and "0 \<le> heap_node_id (array h 0) \<and> heap_node_id (array h 0) < V"
    and "isInMinHeap h (heap_node_id (array h 0))"
    and "entry h (heap_node_id (array h 0)) = array h 0"
    and "valid_heap (snd (extractMin h))"
    and "ids_ok V (snd (extractMin h))"
    and "heap_size (snd (extractMin h)) = heap_size h - 1"
    and "\<not> isInMinHeap (snd (extractMin h)) (heap_node_id (array h 0))"
    and "\<And>u. 0 \<le> u \<Longrightarrow> u < V \<Longrightarrow> u \<noteq> heap_node_id (array h 0) \<Longrightarrow>
          (isInMinHeap (snd (extractMin h)) u \<longleftrightarrow> isInMinHeap h u)
          \<and> (isInMinHeap h u \<longrightarrow> entry (snd (extractMin h)) u = entry h u)"
    and "\<And>u. 0 \<le> u \<Longrightarrow> u < V \<Longrightarrow> isInMinHeap h u \<Longrightarrow> dist (array h 0) \<le> dist (entry h u)"
proof -
  let ?b = "before_heapify h"
  let ?h = "snd (extractMin h)"
  note eq = extractMin_eq[OF assms(3)]
  note ev = extractMin_valid[OF assms(1,3)]
  note sl = ids_ok_slot[OF assms(2) assms(3)]
  show "fst (extractMin h) = Some (array h 0)" by (rule ev(1))
  show "0 \<le> heap_node_id (array h 0) \<and> heap_node_id (array h 0) < V" using sl by simp
  show "isInMinHeap h (heap_node_id (array h 0))" using sl assms(3) by (simp add: isInMinHeap_def)
  show "entry h (heap_node_id (array h 0)) = array h 0" using sl by (simp add: entry_def)
  show "valid_heap ?h" by (rule ev(3))
  show "heap_size ?h = heap_size h - 1" by (rule ev(4))
  show "\<not> isInMinHeap ?h (heap_node_id (array h 0))" using ev(6) by (simp add: isInMinHeap_def)
  note b = before_heapify_ids_ok[OF assms(2,3)]
  note m = minHeapify_ids_ok[OF b(1), of 0]
  show "ids_ok V ?h" using m by (simp add: eq)
  have se: "same_entries V ?b ?h" using m by (simp add: eq)
  show "(isInMinHeap ?h u \<longleftrightarrow> isInMinHeap h u) \<and> (isInMinHeap h u \<longrightarrow> entry ?h u = entry h u)"
    if u: "0 \<le> u" "u < V" "u \<noteq> heap_node_id (array h 0)" for u
  proof -
    have 1: "isInMinHeap ?h u \<longleftrightarrow> isInMinHeap ?b u"
      "isInMinHeap ?b u \<longrightarrow> entry ?h u = entry ?b u"
      using se u(1,2) unfolding same_entries_def isInMinHeap_def by (simp_all add: eq)
    show ?thesis using 1 b(2)[OF u] by auto
  qed
  show "dist (array h 0) \<le> dist (entry h u)" if "0 \<le> u" "u < V" "isInMinHeap h u" for u
    using ev(2) that(3) by (simp add: isInMinHeap_def entry_def)
qed

section \<open>Properties of the command parser\<close>

lemma dropWhile_run:
  "list_all P w \<Longrightarrow> xs = [] \<or> \<not> P (hd xs) \<Longrightarrow> dropWhile P (w @ xs) = xs"
  by (induction w) (cases xs; auto)+

lemma takeWhile_run:
  "list_all P w \<Longrightarrow> xs = [] \<or> \<not> P (hd xs) \<Longrightarrow> takeWhile P (w @ xs) = w"
  by (induction w) (cases xs; auto)+

lemma run_split:
  "list_all P (takeWhile P s)" "dropWhile P s = [] \<or> \<not> P (hd (dropWhile P s))"
  "takeWhile P s @ dropWhile P s = s"
proof -
  show "list_all P (takeWhile P s)" by (auto simp: list_all_iff dest: set_takeWhileD)
  show "dropWhile P s = [] \<or> \<not> P (hd (dropWhile P s))"
    using hd_dropWhile[of P s] by blast
  show "takeWhile P s @ dropWhile P s = s" by simp
qed

lemma digit_not_space: "is_digit c \<Longrightarrow> \<not> is_space c"
  by (auto simp: is_digit_def is_space_def)

lemma sign_not_space: "\<not> is_space CHR ''+''" "\<not> is_space CHR ''-''"
  by (simp_all add: is_space_def)

lemma sign_not_digit: "\<not> is_digit CHR ''+''" "\<not> is_digit CHR ''-''"
  by (simp_all add: is_digit_def)

lemma int_literal_start:
  "int_literal n v \<Longrightarrow> n \<noteq> [] \<and> \<not> is_space (hd n)"
  by (auto simp: int_literal_def sign_not_space digit_not_space neq_Nil_conv)

lemma scan_d_iff:
  "scan_d s = Some (v, r) \<longleftrightarrow>
     (\<exists>w n. s = w @ n @ r \<and> list_all is_space w \<and> int_literal n v \<and> stops r)"
proof
  assume a: "scan_d s = Some (v, r)"
  define s1 where "s1 = skip_space s"
  define sg where "sg = (if s1 \<noteq> [] \<and> (hd s1 = CHR ''-'' \<or> hd s1 = CHR ''+'') then [hd s1] else [])"
  define s2 where "s2 = (if s1 \<noteq> [] \<and> (hd s1 = CHR ''-'' \<or> hd s1 = CHR ''+'') then tl s1 else s1)"
  define ds where "ds = takeWhile is_digit s2"
  have s1: "s1 = sg @ s2" by (auto simp: sg_def s2_def)
  have s: "s = takeWhile is_space s @ s1" by (simp add: s1_def skip_space_def)
  have s2: "s2 = ds @ dropWhile is_digit s2" by (simp add: ds_def)
  have unf: "scan_d s = (if ds = [] then None
      else Some (c_int (if s1 \<noteq> [] \<and> hd s1 = CHR ''-'' then - int (digits_val ds) else int (digits_val ds)),
                 dropWhile is_digit s2))"
    unfolding scan_d_def Let_def s1_def s2_def ds_def by (rule refl)
  from a have ne: "ds \<noteq> []"
    and v: "v = c_int (if s1 \<noteq> [] \<and> hd s1 = CHR ''-'' then - int (digits_val ds) else int (digits_val ds))"
    and r: "r = dropWhile is_digit s2"
    unfolding unf by (auto split: if_splits)
  have neg: "(s1 \<noteq> [] \<and> hd s1 = CHR ''-'') \<longleftrightarrow> sg = ''-''"
    by (auto simp: sg_def)
  have dig: "list_all is_digit ds" unfolding ds_def by (rule run_split(1))
  have sgc: "sg = [] \<or> sg = ''+'' \<or> sg = ''-''" by (auto simp: sg_def)
  have "int_literal (sg @ ds) v"
    unfolding int_literal_def
    apply (rule exI[of _ sg], rule exI[of _ ds])
    apply (intro conjI refl ne dig sgc)
    apply (simp only: v neg)
    done
  moreover have "stops r" using run_split(2)[of is_digit s2] by (simp add: stops_def r)
  moreover have "s = takeWhile is_space s @ (sg @ ds) @ r" using s s1 s2 r by simp
  moreover have "list_all is_space (takeWhile is_space s)" by (rule run_split(1))
  ultimately show "\<exists>w n. s = w @ n @ r \<and> list_all is_space w \<and> int_literal n v \<and> stops r"
    by blast
next
  assume "\<exists>w n. s = w @ n @ r \<and> list_all is_space w \<and> int_literal n v \<and> stops r"
  then obtain w n where s: "s = w @ n @ r" and w: "list_all is_space w"
    and n: "int_literal n v" and r: "stops r" by blast
  from n obtain sg ds where n': "n = sg @ ds" and sg: "sg = [] \<or> sg = ''+'' \<or> sg = ''-''"
    and ds: "ds \<noteq> []" "list_all is_digit ds"
    and v: "v = c_int (if sg = ''-'' then - int (digits_val ds) else int (digits_val ds))"
    by (auto simp: int_literal_def)
  have "skip_space s = n @ r"
    unfolding skip_space_def s using w int_literal_start[OF n]
    by (intro dropWhile_run) auto
  then have s1: "skip_space s = sg @ ds @ r" by (simp add: n')
  have d0: "is_digit (hd ds)" using ds by (cases ds) auto
  have hd_ds: "hd ds \<noteq> CHR ''-''" "hd ds \<noteq> CHR ''+''" using d0 sign_not_digit by auto
  have tk: "takeWhile is_digit (ds @ r) = ds" "dropWhile is_digit (ds @ r) = r"
    using ds(2) r by (auto simp: stops_def intro: takeWhile_run dropWhile_run)
  show "scan_d s = Some (v, r)"
    using sg
  proof (elim disjE)
    assume "sg = []"
    then show ?thesis using ds hd_ds tk v by (simp add: scan_d_def Let_def s1)
  next
    assume "sg = ''+''"
    then show ?thesis using ds tk v by (simp add: scan_d_def Let_def s1)
  next
    assume "sg = ''-''"
    then show ?thesis using ds tk v by (simp add: scan_d_def Let_def s1)
  qed
qed

lemma scan_d_skip: "scan_d (skip_space s) = scan_d s"
  by (simp add: scan_d_def skip_space_def)

lemma scan_literal_iff: "scan_literal lit s = Some r \<longleftrightarrow> s = lit @ r"
proof
  assume "scan_literal lit s = Some r"
  then have "take (length lit) s = lit" "r = drop (length lit) s"
    by (auto simp: scan_literal_def split: if_splits)
  then show "s = lit @ r" by (metis append_take_drop_id)
next
  assume "s = lit @ r"
  then show "scan_literal lit s = Some r" by (simp add: scan_literal_def)
qed

lemma stops_append: "n \<noteq> [] \<Longrightarrow> stops (n @ r) \<longleftrightarrow> stops n"
  by (cases n) (auto simp: stops_def)

lemma int_literal_nonempty: "int_literal n v \<Longrightarrow> n \<noteq> []"
  by (auto simp: int_literal_def)

lemma scan_two_iff:
  "(\<exists>s2 s3. scan_d s1 = Some (a, s2) \<and> scan_d s2 = Some (b, s3)) \<longleftrightarrow>
   (\<exists>w1 n1 w2 n2 r. s1 = w1 @ n1 @ w2 @ n2 @ r
        \<and> list_all is_space w1 \<and> int_literal n1 a \<and> stops (w2 @ n2)
        \<and> list_all is_space w2 \<and> int_literal n2 b \<and> stops r)"
proof
  assume "\<exists>s2 s3. scan_d s1 = Some (a, s2) \<and> scan_d s2 = Some (b, s3)"
  then obtain s2 s3 where 1: "scan_d s1 = Some (a, s2)" and 2: "scan_d s2 = Some (b, s3)"
    by blast
  from 1 obtain w1 n1 where a: "s1 = w1 @ n1 @ s2" "list_all is_space w1" "int_literal n1 a"
    "stops s2" unfolding scan_d_iff by blast
  from 2 obtain w2 n2 where b: "s2 = w2 @ n2 @ s3" "list_all is_space w2" "int_literal n2 b"
    "stops s3" unfolding scan_d_iff by blast
  have "w2 @ n2 \<noteq> []" using int_literal_nonempty[OF b(3)] by simp
  then have "stops (w2 @ n2)" using a(4) stops_append[of "w2 @ n2" s3] by (simp add: b(1))
  moreover have "s1 = w1 @ n1 @ w2 @ n2 @ s3" using a(1) b(1) by simp
  ultimately show "\<exists>w1 n1 w2 n2 r. s1 = w1 @ n1 @ w2 @ n2 @ r
        \<and> list_all is_space w1 \<and> int_literal n1 a \<and> stops (w2 @ n2)
        \<and> list_all is_space w2 \<and> int_literal n2 b \<and> stops r"
    using a(2,3) b(2,3,4) by blast
next
  assume "\<exists>w1 n1 w2 n2 r. s1 = w1 @ n1 @ w2 @ n2 @ r
        \<and> list_all is_space w1 \<and> int_literal n1 a \<and> stops (w2 @ n2)
        \<and> list_all is_space w2 \<and> int_literal n2 b \<and> stops r"
  then obtain w1 n1 w2 n2 r where s1: "s1 = w1 @ n1 @ w2 @ n2 @ r"
    and f: "list_all is_space w1" "int_literal n1 a" "stops (w2 @ n2)"
      "list_all is_space w2" "int_literal n2 b" "stops r"
    by blast
  have "w2 @ n2 \<noteq> []" using int_literal_nonempty[OF f(5)] by simp
  then have "stops ((w2 @ n2) @ r)" using f(3) stops_append[of "w2 @ n2" r] by blast
  then have "scan_d s1 = Some (a, w2 @ n2 @ r)"
    unfolding scan_d_iff using s1 f(1,2) by auto
  moreover have "scan_d (w2 @ n2 @ r) = Some (b, r)"
    unfolding scan_d_iff using f(4,5,6) by blast
  ultimately show "\<exists>s2 s3. scan_d s1 = Some (a, s2) \<and> scan_d s2 = Some (b, s3)" by blast
qed

lemma scan_REQ_iff: "scan_REQ line = Some (a, b) \<longleftrightarrow> req_form line a b"
proof -
  have "scan_REQ line = Some (a, b) \<longleftrightarrow>
      (\<exists>s1. line = ''REQ'' @ s1 \<and> (\<exists>s2 s3. scan_d s1 = Some (a, s2) \<and> scan_d s2 = Some (b, s3)))"
  proof (cases "scan_literal ''REQ'' line")
    case None
    then have "\<And>s1. line \<noteq> ''REQ'' @ s1" using scan_literal_iff[of "''REQ''" line] by auto
    then show ?thesis using None by (simp add: scan_REQ_def)
  next
    case (Some s1)
    then have ls: "line = ''REQ'' @ s1" by (simp only: scan_literal_iff)
    have L: "scan_REQ line = Some (a, b) \<longleftrightarrow>
        (\<exists>s2 s3. scan_d s1 = Some (a, s2) \<and> scan_d s2 = Some (b, s3))"
      using Some by (auto simp: scan_REQ_def scan_d_skip split: option.splits)
    have R: "(\<exists>s1'. line = ''REQ'' @ s1'
          \<and> (\<exists>s2 s3. scan_d s1' = Some (a, s2) \<and> scan_d s2 = Some (b, s3))) \<longleftrightarrow>
        (\<exists>s2 s3. scan_d s1 = Some (a, s2) \<and> scan_d s2 = Some (b, s3))"
      unfolding ls by auto
    show ?thesis unfolding L R ..
  qed
  also have "\<dots> \<longleftrightarrow> req_form line a b"
    unfolding scan_two_iff req_form_def by blast
  finally show ?thesis .
qed

lemma scan_UPD_iff: "scan_UPD scan_lf line = Some (e, sp) \<longleftrightarrow> upd_form scan_lf line e sp"
proof
  assume "scan_UPD scan_lf line = Some (e, sp)"
  then obtain s1 s2 r1 where l0: "scan_literal ''UPD'' line = Some s1"
    and d: "scan_d s1 = Some (e, s2)"
    and f: "scan_lf (skip_space s2) = Some (sp, r1)"
    by (auto simp: scan_UPD_def scan_d_skip split: option.splits)
  have l: "line = ''UPD'' @ s1" using l0 by (simp only: scan_literal_iff)
  from d obtain w1 n1 where a: "s1 = w1 @ n1 @ s2" "list_all is_space w1" "int_literal n1 e"
    "stops s2" unfolding scan_d_iff by blast
  let ?w2 = "takeWhile is_space s2" and ?r = "skip_space s2"
  have s2: "s2 = ?w2 @ ?r" by (simp add: skip_space_def)
  have "line = ''UPD'' @ w1 @ n1 @ ?w2 @ ?r" using l a(1) s2 by simp
  moreover have "list_all is_space ?w2" by (rule run_split(1))
  moreover have "?r = [] \<or> \<not> is_space (hd ?r)"
    unfolding skip_space_def by (rule run_split(2))
  moreover have "stops (?w2 @ ?r)" using a(4) s2 by simp
  ultimately show "upd_form scan_lf line e sp"
    unfolding upd_form_def using a(2,3) f by blast
next
  assume "upd_form scan_lf line e sp"
  then obtain w1 n1 w2 r r1 where l: "line = ''UPD'' @ w1 @ n1 @ w2 @ r"
    and f: "list_all is_space w1" "int_literal n1 e" "stops (w2 @ r)"
      "list_all is_space w2" "r = [] \<or> \<not> is_space (hd r)" "scan_lf r = Some (sp, r1)"
    unfolding upd_form_def by blast
  have "scan_d (w1 @ n1 @ w2 @ r) = Some (e, w2 @ r)"
    unfolding scan_d_iff using f(1,2,3) by blast
  moreover have "skip_space (w2 @ r) = r"
    unfolding skip_space_def using f(4,5) by (rule dropWhile_run)
  ultimately show "scan_UPD scan_lf line = Some (e, sp)"
    using f(6) by (simp add: scan_UPD_def scan_d_skip scan_literal_def l)
qed

lemma forms_exclusive: "req_form line a b \<Longrightarrow> \<not> upd_form scan_lf line e sp"
  by (auto simp: req_form_def upd_form_def)

text \<open>
  Claim C7, as amended.  The handler reads the received buffer as a C string (the bytes
  before the first NUL) and strips trailing CR/LF.  An empty line is answered \<^verbatim>\<open>ERR EMPTY\<close>; a
  line is dispatched as a routing task exactly when it has the form that \<^verbatim>\<open>sscanf\<close> converts
  with \<^verbatim>\<open>"REQ %d %d"\<close>: \<^verbatim>\<open>REQ\<close>, optional white space, an optionally signed integer, optional
  white space, an optionally signed integer, and anything after it; as a traffic task exactly
  when it is \<^verbatim>\<open>UPD\<close>, optional white space, an optionally signed integer, optional white space
  and a number that \<^verbatim>\<open>%lf\<close> converts, and anything after it; every other non-empty line is
  answered \<^verbatim>\<open>ERR UNKNOWN_CMD\<close>.  The ids that a task carries are the \<^verbatim>\<open>int\<close> values that
  \<^verbatim>\<open>%d\<close> stores (\<open>c_int\<close>): the low 32 bits of the number read.
\<close>

theorem dispatch_line_cases:
  "(dispatch_line scan_lf received = Reply (''ERR EMPTY'' @ [NL]) \<longleftrightarrow> trim_crlf received = [])
   \<and> (dispatch_line scan_lf received = Routing (TASK_REQ src dst) \<longleftrightarrow>
        req_form (trim_crlf received) src dst)
   \<and> (dispatch_line scan_lf received = Traffic (TASK_UPD eid speed) \<longleftrightarrow>
        upd_form scan_lf (trim_crlf received) eid speed)
   \<and> (dispatch_line scan_lf received = Reply (''ERR UNKNOWN_CMD'' @ [NL]) \<longleftrightarrow>
        trim_crlf received \<noteq> []
        \<and> (\<forall>a b. \<not> req_form (trim_crlf received) a b)
        \<and> (\<forall>e s. \<not> upd_form scan_lf (trim_crlf received) e s))"
proof -
  let ?l = "trim_crlf received"
  have ne_req: "req_form ?l a b \<Longrightarrow> ?l \<noteq> []" for a b by (auto simp: req_form_def)
  have ne_upd: "upd_form scan_lf ?l e s \<Longrightarrow> ?l \<noteq> []" for e s by (auto simp: upd_form_def)
  have R: "scan_REQ ?l = None \<longleftrightarrow> (\<forall>a b. \<not> req_form ?l a b)"
    using scan_REQ_iff[of ?l] by (cases "scan_REQ ?l") auto
  have U: "scan_UPD scan_lf ?l = None \<longleftrightarrow> (\<forall>e s. \<not> upd_form scan_lf ?l e s)"
    using scan_UPD_iff[of scan_lf ?l] by (cases "scan_UPD scan_lf ?l") auto
  show ?thesis
  proof (cases "?l = []")
    case True
    then show ?thesis using ne_req ne_upd by (auto simp: dispatch_line_def Let_def)
  next
    case ne: False
    show ?thesis
    proof (cases "scan_REQ ?l")
      case (Some p)
      obtain a b where p: "p = (a, b)" by (cases p)
      have rf: "req_form ?l a b" using Some p scan_REQ_iff by simp
      have d: "dispatch_line scan_lf received = Routing (TASK_REQ a b)"
        using ne Some p by (simp add: dispatch_line_def Let_def)
      have "req_form ?l src dst \<longleftrightarrow> src = a \<and> dst = b"
        using scan_REQ_iff[of ?l src dst] Some p by auto
      then show ?thesis using d ne rf forms_exclusive[OF rf] by auto
    next
      case None
      note n = None[unfolded R]
      show ?thesis
      proof (cases "scan_UPD scan_lf ?l")
        case (Some p)
        obtain e s where p: "p = (e, s)" by (cases p)
        have uf: "upd_form scan_lf ?l e s" using Some p scan_UPD_iff by simp
        have d: "dispatch_line scan_lf received = Traffic (TASK_UPD e s)"
          using ne None Some p by (simp add: dispatch_line_def Let_def)
        have "upd_form scan_lf ?l eid speed \<longleftrightarrow> eid = e \<and> speed = s"
          using scan_UPD_iff[of scan_lf ?l eid speed] Some p by auto
        then show ?thesis using d ne n uf by auto
      next
        case None2: None
        have d: "dispatch_line scan_lf received = Reply (''ERR UNKNOWN_CMD'' @ [NL])"
          using ne None None2 by (simp add: dispatch_line_def Let_def)
        show ?thesis using d ne n None2[unfolded U] by auto
      qed
    qed
  qed
qed

lemma scan_REQ_examples:
  "scan_REQ ''REQ 0 2'' = Some (0, 2)"
  "scan_REQ ''REQ 1 2 extra'' = Some (1, 2)"
  "scan_REQ ''REQ1 2'' = Some (1, 2)"
  "scan_REQ ''REQ -1 2'' = Some (- 1, 2)"
  "scan_REQ ''REQ 4294967296 2'' = Some (0, 2)"
  "scan_REQ ''FOO'' = None"
  "scan_REQ ''UPD 0 8'' = None"
  by (simp_all add: scan_REQ_def scan_literal_def skip_space_def is_space_def scan_d_def Let_def
      is_digit_def digits_val_def digit_val_def c_int_def)

lemma scan_UPD_examples:
  "scan_UPD digits_lf ''UPD 0 8'' = Some (0, 8)"
  "scan_UPD digits_lf ''FOO'' = None"
  by (simp_all add: scan_UPD_def scan_literal_def skip_space_def is_space_def scan_d_def Let_def
      is_digit_def digits_val_def digit_val_def c_int_def digits_lf_def)

lemma trim_crlf_examples:
  "trim_crlf (''REQ 0 2'' @ [CR, NL]) = ''REQ 0 2''"
  "trim_crlf (''REQ 1 2 extra'' @ [NL]) = ''REQ 1 2 extra''"
  "trim_crlf (''REQ1 2'' @ [NL]) = ''REQ1 2''"
  "trim_crlf (''REQ -1 2'' @ [NL]) = ''REQ -1 2''"
  "trim_crlf (''REQ 4294967296 2'' @ [NL]) = ''REQ 4294967296 2''"
  "trim_crlf (''UPD 0 8'' @ [NL]) = ''UPD 0 8''"
  "trim_crlf (''FOO'' @ [NL]) = ''FOO''"
  "trim_crlf [NL] = []"
  "trim_crlf (CHR 0x00 # ''REQ 0 2'' @ [NL]) = []"
  by (simp_all add: trim_crlf_def c_str_def NL_def CR_def)

theorem dispatch_line_cases_witness:
  "dispatch_line digits_lf (''REQ 0 2'' @ [CR, NL]) = Routing (TASK_REQ 0 2)
   \<and> req_form ''REQ 0 2'' 0 2
   \<and> dispatch_line digits_lf (''UPD 0 8'' @ [NL]) = Traffic (TASK_UPD 0 8)
   \<and> upd_form digits_lf ''UPD 0 8'' 0 8
   \<and> dispatch_line digits_lf (''FOO'' @ [NL]) = Reply (''ERR UNKNOWN_CMD'' @ [NL])
   \<and> dispatch_line digits_lf [NL] = Reply (''ERR EMPTY'' @ [NL])
   \<and> dispatch_line digits_lf (CHR 0x00 # ''REQ 0 2'' @ [NL]) = Reply (''ERR EMPTY'' @ [NL])
   \<and> dispatch_line digits_lf (''REQ 4294967296 2'' @ [NL]) = Routing (TASK_REQ 0 2)
   \<and> req_form ''REQ 4294967296 2'' 0 2"
proof -
  have 1: "dispatch_line digits_lf (''REQ 0 2'' @ [CR, NL]) = Routing (TASK_REQ 0 2)"
    unfolding dispatch_line_def trim_crlf_examples Let_def by (simp add: scan_REQ_examples)
  have 2: "dispatch_line digits_lf (''FOO'' @ [NL]) = Reply (''ERR UNKNOWN_CMD'' @ [NL])"
    unfolding dispatch_line_def trim_crlf_examples Let_def
    by (simp add: scan_REQ_examples scan_UPD_examples)
  have 3: "dispatch_line digits_lf [NL] = Reply (''ERR EMPTY'' @ [NL])"
    unfolding dispatch_line_def trim_crlf_examples Let_def by simp
  have 4: "dispatch_line digits_lf (''UPD 0 8'' @ [NL]) = Traffic (TASK_UPD 0 8)"
    unfolding dispatch_line_def trim_crlf_examples Let_def
    by (simp add: scan_REQ_examples scan_UPD_examples)
  have 5: "dispatch_line digits_lf (CHR 0x00 # ''REQ 0 2'' @ [NL]) = Reply (''ERR EMPTY'' @ [NL])"
    unfolding dispatch_line_def trim_crlf_examples Let_def by simp
  have 6: "dispatch_line digits_lf (''REQ 4294967296 2'' @ [NL]) = Routing (TASK_REQ 0 2)"
    unfolding dispatch_line_def trim_crlf_examples Let_def by (simp add: scan_REQ_examples)
  show ?thesis
    using dispatch_line_cases[of digits_lf "''REQ 0 2'' @ [CR, NL]" 0 2 0 0]
      dispatch_line_cases[of digits_lf "''UPD 0 8'' @ [NL]" 0 0 0 8]
      dispatch_line_cases[of digits_lf "''REQ 4294967296 2'' @ [NL]" 0 2 0 0]
      1 2 3 4 5 6
    unfolding trim_crlf_examples by blast
qed

text \<open>
  Claim C7 as stated fails: a line with an extra token, a line with no space after the
  keyword and a line with a negative source are all dispatched as routing tasks.
\<close>

theorem dispatch_line_counterexample:
  "dispatch_line (\<lambda>s. None) (''REQ 1 2 extra'' @ [NL]) = Routing (TASK_REQ 1 2)
   \<and> dispatch_line (\<lambda>s. None) (''REQ1 2'' @ [NL]) = Routing (TASK_REQ 1 2)
   \<and> dispatch_line (\<lambda>s. None) (''REQ -1 2'' @ [NL]) = Routing (TASK_REQ (- 1) 2)"
  unfolding dispatch_line_def trim_crlf_examples Let_def by (simp add: scan_REQ_examples)

section \<open>Properties of the search and of the protocol\<close>

lemma DBL_MAX_pos: "0 < DBL_MAX"
  by (simp add: DBL_MAX_def)

lemma astar_init_heap:
  assumes "0 \<le> V"
  shows "valid_heap (minHeap (astar_init V))"
    and "ids_ok V (minHeap (astar_init V))"
    and "heap_size (minHeap (astar_init V)) = nat V"
    and "\<And>v. 0 \<le> v \<Longrightarrow> v < V \<Longrightarrow> isInMinHeap (minHeap (astar_init V)) v"
    and "\<And>v. 0 \<le> v \<Longrightarrow> v < V \<Longrightarrow>
           entry (minHeap (astar_init V)) v = \<lparr> heap_node_id = v, dist = DBL_MAX \<rparr>"
  using assms
  by (auto simp: astar_init_def valid_heap_def ids_ok_def isInMinHeap_def entry_def)

lemma astar_init_simps:
  "g_score (astar_init V) = (\<lambda>i. DBL_MAX)"
  "f_score (astar_init V) = (\<lambda>i. DBL_MAX)"
  "parent (astar_init V) = (\<lambda>i. - 1)"
  by (simp_all add: astar_init_def)

lemma INFINITY_nonneg: "0 \<le> INFINITY"
  by (simp add: INFINITY_def)

lemma heuristic_self:
  "0 \<le> s \<Longrightarrow> s < num_nodes g \<Longrightarrow> heuristic g s s = Some 0"
  using DBL_MAX_pos by (simp add: heuristic_def Let_def INFINITY_def not_less less_imp_le)

lemma heuristic_nonneg:
  "heuristic g u v = Some h \<Longrightarrow> 0 \<le> h"
  by (auto simp: heuristic_def Let_def INFINITY_nonneg split: if_splits)

lemma walk_parents_root:
  "par v = - 1 \<Longrightarrow> v \<noteq> - 1 \<Longrightarrow> 0 < n \<Longrightarrow> walk_parents par n v = Some [v]"
  by (cases n; cases "n - 1") auto

lemma astar_start_simps:
  "g_score (astar_start g s h0) = (\<lambda>i. DBL_MAX)(s := 0)"
  "f_score (astar_start g s h0) = (\<lambda>i. DBL_MAX)(s := h0)"
  "parent (astar_start g s h0) = (\<lambda>i. - 1)"
  "minHeap (astar_start g s h0) = decreaseKey (minHeap (astar_init (num_nodes g))) s h0"
  by (simp_all add: astar_start_def Let_def astar_init_simps)

lemma find_route_same:
  assumes "0 \<le> s" "s < num_nodes g" "1 \<le> max_nodes"
  shows "find_route_a_star_path g s s max_edges max_nodes = Route 0 [] [s]"
proof -
  let ?V = "num_nodes g"
  let ?Hi = "minHeap (astar_init ?V)"
  have V: "0 \<le> ?V" "0 < nat ?V" using assms by auto
  note init = astar_init_heap[OF V(1)]
  let ?st = "astar_start g s 0"
  let ?H = "minHeap ?st"
  have H: "?H = decreaseKey ?Hi s 0" by (simp add: astar_start_simps)
  have k: "0 \<le> dist (entry ?Hi s)" using init(5)[OF assms(1,2)] DBL_MAX_pos by simp
  note dk = decreaseKey_spec[OF init(1,2) assms(1,2) init(4)[OF assms(1,2)] k, folded H]
  have size: "0 < heap_size ?H" using dk(3) init(3) V by simp
  note ex = extractMin_spec[OF dk(1,2) size]
  let ?r = "array ?H 0"
  define v where "v = heap_node_id ?r"
  have v: "0 \<le> v" "v < ?V" "isInMinHeap ?H v" "entry ?H v = ?r"
    using ex(2,3,4) by (simp_all add: v_def)
  have rs: "v = s"
  proof (rule ccontr)
    assume ne: "v \<noteq> s"
    have inHi: "isInMinHeap ?Hi v" using dk(4)[OF v(1,2)] v(3) by simp
    have "entry ?H v = entry ?Hi v" using dk(6)[OF v(1,2) ne inHi] .
    also have "\<dots> = \<lparr> heap_node_id = v, dist = DBL_MAX \<rparr>" using init(5)[OF v(1,2)] .
    finally have "?r = \<lparr> heap_node_id = v, dist = DBL_MAX \<rparr>" using v(4) by simp
    then have "dist ?r = DBL_MAX" by simp
    moreover have "dist ?r \<le> dist (entry ?H s)"
      using ex(10)[OF assms(1,2)] dk(4)[OF assms(1,2)] init(4)[OF assms(1,2)] by simp
    then have "dist ?r \<le> 0" by (simp add: dk(5))
    ultimately show False using DBL_MAX_pos by simp
  qed
  have r: "?r = \<lparr> heap_node_id = s, dist = 0 \<rparr>"
    using v(4) rs dk(5) by simp
  define h1 where "h1 = snd (extractMin ?H)"
  have e: "extractMin ?H = (Some \<lparr> heap_node_id = s, dist = 0 \<rparr>, h1)"
    using ex(1) r by (simp add: prod_eq_iff h1_def)
  have loop: "astar_loop g s ?st = Some (True, ?st\<lparr> minHeap := h1 \<rparr>)"
    using size DBL_MAX_pos
    by (subst astar_loop.simps) (simp add: isEmpty_def e Let_def)
  have walk: "walk_parents (\<lambda>i. - 1) (nat ?V) s = Some [s]"
    using assms(1) V(2) by (intro walk_parents_root) auto
  have "reconstruct g s max_edges max_nodes (?st\<lparr> minHeap := h1 \<rparr>) = Route 0 [] [s]"
    using assms(3) by (simp add: reconstruct_def astar_start_simps walk)
  then show ?thesis
    using assms by (simp add: find_route_a_star_path_def heuristic_self loop)
qed

lemma show_nat_length:
  "0 < k \<Longrightarrow> n < 10 ^ k \<Longrightarrow> length (show_nat n) \<le> k"
proof (induction n arbitrary: k rule: show_nat.induct)
  case (1 n)
  show ?case
  proof (cases "n < 10")
    case True
    then show ?thesis using "1.prems" by (subst show_nat.simps) simp
  next
    case False
    then obtain j where k: "k = Suc j" "0 < j"
      using "1.prems" by (cases k; cases "k - 1") auto
    have "n div 10 < 10 ^ j" using "1.prems"(2) k by (simp add: less_mult_imp_div_less mult.commute)
    from "1.IH"[OF False k(2) this]
    show ?thesis using False k by (subst show_nat.simps) simp
  qed
qed

lemma show_nat_digit: "n < 10 \<Longrightarrow> show_nat n = [digit_char n]"
  by (subst show_nat.simps) simp

lemma show_fixed3_zero: "show_fixed3 0 = ''0.000''"
  by (simp add: show_fixed3_def round_half_even_def show_nat_digit digit_char_def)

lemma snprintf_at_fits:
  "int (length (fst st @ s)) < buf_sz \<Longrightarrow>
   snprintf_at buf_sz st s = (fst st @ s, snd st + int (length s))"
  by (simp add: snprintf_at_def)

text \<open>
  Claim C8.  For every graph (of at most \<^verbatim>\<open>MAX_NODES\<close> nodes, as the \<^verbatim>\<open>Graph\<close> structure holds)
  and every valid node id \<open>s\<close>, a query from \<open>s\<close> to \<open>s\<close> succeeds with cost 0, the node
  path \<open>[s]\<close> and no edge; the response line is \<^verbatim>\<open>ROUTE2 0.000 1 s 0\<close>, and the line
  \<^verbatim>\<open>REQ 5 5\<close> is answered \<^verbatim>\<open>ROUTE2 0.000 1 5 0\<close> on any graph that has node 5.
\<close>

theorem route_to_self:
  assumes "0 \<le> s" "s < num_nodes g" "num_nodes g \<le> MAX_NODES"
  shows "(1 \<le> max_nodes \<longrightarrow> find_route_a_star_path g s s max_edges max_nodes = Route 0 [] [s])
     \<and> build_route_response g s s = Some (''ROUTE2 0.000 1 '' @ show_int s @ '' 0'' @ [NL])
     \<and> (s = 5 \<longrightarrow> serve_line scan_lf g (''REQ 5 5'' @ [NL])
                    = (Some (''ROUTE2 0.000 1 5 0'' @ [NL]), g))"
proof (intro conjI impI)
  assume "1 \<le> max_nodes"
  then show "find_route_a_star_path g s s max_edges max_nodes = Route 0 [] [s]"
    using assms(1,2) by (rule find_route_same[rotated 2])
next
  have r: "find_route_a_star_path g s s (num_nodes g) (num_nodes g) = Route 0 [] [s]"
    using assms(1,2) by (intro find_route_same) auto
  have "nat s < 10 ^ 5" using assms by (simp add: MAX_NODES_def)
  then have "length (show_nat (nat s)) \<le> 5" by (intro show_nat_length) simp_all
  then have len: "length (show_int s) \<le> 5" using assms(1) by (simp add: show_int_def)
  have one: "show_int 1 = ''1''" "show_int 0 = ''0''"
    by (simp_all add: show_int_def show_nat_digit digit_char_def)
  have f: "format_route 0 [s] [] = Some (''ROUTE2 0.000 1 '' @ show_int s @ '' 0'' @ [NL])"
    using len by (simp add: format_route_def Let_def snprintf_at_def show_fixed3_zero one)
  show b: "build_route_response g s s = Some (''ROUTE2 0.000 1 '' @ show_int s @ '' 0'' @ [NL])"
    using assms(1,2) by (simp add: build_route_response_def r Let_def f)
  assume s5: "s = 5"
  have t: "trim_crlf (''REQ 5 5'' @ [NL]) = ''REQ 5 5''"
    by (simp add: trim_crlf_def c_str_def NL_def CR_def)
  have q: "scan_REQ ''REQ 5 5'' = Some (5, 5)"
    by (simp add: scan_REQ_def scan_literal_def skip_space_def is_space_def scan_d_def Let_def
        is_digit_def digits_val_def digit_val_def c_int_def)
  have five: "show_int 5 = ''5''"
    by (simp add: show_int_def show_nat_digit digit_char_def)
  show "serve_line scan_lf g (''REQ 5 5'' @ [NL]) = (Some (''ROUTE2 0.000 1 5 0'' @ [NL]), g)"
    using b unfolding s5
    by (simp add: serve_line_def dispatch_line_def t q run_task_def five del: append.simps)
qed

theorem route_to_self_witness:
  "num_nodes six_node_graph = 6
   \<and> find_route_a_star_path six_node_graph 5 5 6 6 = Route 0 [] [5]
   \<and> build_route_response six_node_graph 5 5 = Some (''ROUTE2 0.000 1 5 0'' @ [NL])
   \<and> serve_line (\<lambda>s. None) six_node_graph (''REQ 5 5'' @ [NL])
       = (Some (''ROUTE2 0.000 1 5 0'' @ [NL]), six_node_graph)"
proof -
  have n: "num_nodes six_node_graph = 6"
    by (simp add: six_node_graph_def build_graph_def graph_init_def MAX_NODES_def)
  have five: "show_int 5 = ''5''"
    by (simp add: show_int_def show_nat_digit digit_char_def)
  show ?thesis
    using route_to_self[of 5 six_node_graph 6 6 "\<lambda>s. None"]
    by (simp add: n MAX_NODES_def five)
qed

lemma heuristic_hval:
  "0 \<le> v \<Longrightarrow> v < num_nodes g \<Longrightarrow> 0 \<le> t \<Longrightarrow> t < num_nodes g \<Longrightarrow>
   heuristic g v t = Some (hval g t v)"
  by (auto simp: hval_def heuristic_def Let_def)

lemma hval_nonneg: "0 \<le> hval g t v"
  by (auto simp: hval_def heuristic_def Let_def INFINITY_nonneg)

lemma INFINITY_gt: "DBL_MAX < INFINITY"
  by (simp add: DBL_MAX_def INFINITY_def)

lemma relax_edge_eq:
  assumes "0 \<le> t" "t < num_nodes g"
    and "edge_ok g eid \<longrightarrow>
      add_f (g_score st u + weight g eid) (hval g t (to_node (edges g eid)))
        = g_score st u + weight g eid + hval g t (to_node (edges g eid))"
  shows "relax_edge g t u st eid =
     Some (if edge_ok g eid \<and> g_score st u \<noteq> DBL_MAX
              \<and> g_score st u + weight g eid < g_score st (to_node (edges g eid))
           then improve st u (to_node (edges g eid)) (g_score st u + weight g eid)
                  (hval g t (to_node (edges g eid)))
           else st)"
proof (cases "edge_ok g eid")
  case False
  then show ?thesis
    by (auto simp: relax_edge_def edge_ok_def get_edge_weight_def Let_def)
next
  case True
  then have h: "heuristic g (to_node (edges g eid)) t = Some (hval g t (to_node (edges g eid)))"
    using assms(1,2) by (intro heuristic_hval) (auto simp: edge_ok_def)
  have f: "add_f (g_score st u + current_travel_time (edges g eid))
             (hval g t (to_node (edges g eid)))
           = g_score st u + current_travel_time (edges g eid) + hval g t (to_node (edges g eid))"
    using assms(3) True by (simp add: weight_def)
  show ?thesis
    using True
    by (simp add: relax_edge_def edge_ok_def get_edge_weight_def Let_def h f improve_def weight_def)
qed

lemma improve_simps:
  "g_score (improve st u v tg h) = (g_score st)(v := tg)"
  "f_score (improve st u v tg h) = (f_score st)(v := tg + h)"
  "parent (improve st u v tg h) = (parent st)(v := u)"
  "minHeap (improve st u v tg h) =
     (if isInMinHeap (minHeap st) v then decreaseKey (minHeap st) v (tg + h) else minHeap st)"
  by (simp_all add: improve_def Let_def)

lemma improve_inv_A:
  assumes inv: "inv_A g s t B st" and bg: "bounded_graph g t B"
    and u: "0 \<le> u" "u < num_nodes g" "g_score st u + B \<le> B * extracted g st"
    and e: "eid \<in> set (out_edges (nodes g u))" "edge_ok g eid"
    and lt: "g_score st u + weight g eid < g_score st (to_node (edges g eid))"
  shows "inv_A g s t B (improve st u (to_node (edges g eid)) (g_score st u + weight g eid)
           (hval g t (to_node (edges g eid))))"
    and "g_score (improve st u (to_node (edges g eid)) (g_score st u + weight g eid)
           (hval g t (to_node (edges g eid)))) u = g_score st u"
    and "heap_size (minHeap (improve st u (to_node (edges g eid)) (g_score st u + weight g eid)
           (hval g t (to_node (edges g eid))))) = heap_size (minHeap st)"
proof -
  let ?V = "num_nodes g"
  let ?H = "minHeap st"
  define v where "v = to_node (edges g eid)"
  define tg where "tg = g_score st u + weight g eid"
  define hv where "hv = hval g t v"
  let ?st = "improve st u v tg hv"
  have v: "0 \<le> v" "v < ?V" using e(2) by (auto simp: edge_ok_def v_def)
  have w: "0 \<le> weight g eid" "weight g eid \<le> B" and B: "0 \<le> B"
    and hb: "B * real_of_int ?V + hv < DBL_MAX"
    using bg u(1,2) e v unfolding bounded_graph_def hv_def by blast+
  have I: "valid_heap ?H" "ids_ok ?V ?H" "real (heap_size ?H) \<le> real_of_int ?V" "g_score st s = 0"
    and Iv: "\<And>x. 0 \<le> x \<Longrightarrow> x < ?V \<Longrightarrow> 0 \<le> g_score st x \<and> g_score st x \<le> DBL_MAX
           \<and> (g_score st x < DBL_MAX \<longrightarrow> g_score st x \<le> B * extracted g st)
           \<and> (isInMinHeap ?H x \<longrightarrow> dist (entry ?H x)
                  = (if g_score st x < DBL_MAX then g_score st x + hval g t x else DBL_MAX))"
    using inv unfolding inv_A_def by blast+
  have gu: "0 \<le> g_score st u" using Iv[OF u(1,2)] by simp
  have tg0: "0 \<le> tg" using gu w by (simp add: tg_def)
  have tgK: "tg \<le> B * extracted g st" using u(3) w by (simp add: tg_def)
  have KV: "extracted g st \<le> real_of_int ?V" by (simp add: extracted_def)
  have "B * extracted g st \<le> B * real_of_int ?V" using KV B by (rule mult_left_mono)
  then have tgh: "tg + hv < DBL_MAX" using tgK hb by linarith
  have hv0: "0 \<le> hv" by (simp add: hv_def hval_nonneg)
  have tgD: "tg < DBL_MAX" using tgh hv0 by linarith
  have ltv: "tg < g_score st v" using lt by (simp add: tg_def v_def)
  have vu: "v \<noteq> u" using ltv w by (auto simp: tg_def)
  have vs: "v \<noteq> s" using ltv tg0 I(4) by auto
  show "g_score (improve st u (to_node (edges g eid)) (g_score st u + weight g eid)
           (hval g t (to_node (edges g eid)))) u = g_score st u"
    using vu by (simp add: improve_simps v_def)
  show sz: "heap_size (minHeap (improve st u (to_node (edges g eid)) (g_score st u + weight g eid)
           (hval g t (to_node (edges g eid))))) = heap_size (minHeap st)"
    by (simp add: improve_simps decreaseKey_def Let_def)
  have ex: "extracted g ?st = extracted g st"
    using sz by (simp add: extracted_def v_def tg_def hv_def)
  have "inv_A g s t B ?st"
  proof (cases "isInMinHeap ?H v")
    case False
    then have H: "minHeap ?st = ?H" by (simp add: improve_simps)
    show ?thesis
      unfolding inv_A_def H ex
      using I Iv vs tg0 tgD tgK False by (auto simp: improve_simps)
  next
    case True
    have old: "tg + hv \<le> dist (entry ?H v)"
      using Iv[OF v] True ltv tgh by (auto simp: hv_def)
    note dk = decreaseKey_spec[OF I(1,2) v True old]
    have H: "minHeap ?st = decreaseKey ?H v (tg + hv)" using True by (simp add: improve_simps)
    show ?thesis
      unfolding inv_A_def H ex
    proof (intro conjI allI impI)
      show "valid_heap (decreaseKey ?H v (tg + hv))" by (rule dk(1))
      show "ids_ok ?V (decreaseKey ?H v (tg + hv))" by (rule dk(2))
      show "real (heap_size (decreaseKey ?H v (tg + hv))) \<le> real_of_int ?V"
        using I(3) dk(3) by simp
      show "g_score ?st s = 0" using vs I(4) by (simp add: improve_simps)
    next
      fix x assume x: "0 \<le> x \<and> x < ?V"
      then have x': "0 \<le> x" "x < ?V" by auto
      show "0 \<le> g_score ?st x" using Iv[OF x'] tg0 by (simp add: improve_simps)
      show "g_score ?st x \<le> DBL_MAX" using Iv[OF x'] tgD by (simp add: improve_simps)
      show "g_score ?st x \<le> B * extracted g st" if "g_score ?st x < DBL_MAX"
        using Iv[OF x'] tgK that by (auto simp: improve_simps split: if_splits)
      show "dist (entry (decreaseKey ?H v (tg + hv)) x)
          = (if g_score ?st x < DBL_MAX then g_score ?st x + hval g t x else DBL_MAX)"
        if "isInMinHeap (decreaseKey ?H v (tg + hv)) x"
      proof (cases "x = v")
        case True
        then show ?thesis using dk(5) tgD by (simp add: improve_simps hv_def)
      next
        case False
        have "isInMinHeap ?H x" using dk(4)[OF x'] that by simp
        then show ?thesis using dk(6)[OF x' False] Iv[OF x'] False by (simp add: improve_simps)
      qed
    qed
  qed
  then show "inv_A g s t B (improve st u (to_node (edges g eid)) (g_score st u + weight g eid)
           (hval g t (to_node (edges g eid))))"
    by (simp add: v_def tg_def hv_def)
qed

lemma is_chain_Cons:
  "is_chain par (v # vs) \<longleftrightarrow>
     (if vs = [] then par v = - 1 else par v = hd vs \<and> hd vs \<noteq> - 1 \<and> is_chain par vs)"
  by (cases vs) auto

lemma chain_unique:
  "is_chain par vs \<Longrightarrow> is_chain par ws \<Longrightarrow> hd vs = hd ws \<Longrightarrow> vs = ws"
proof (induction vs arbitrary: ws)
  case Nil
  then show ?case by simp
next
  case (Cons v vs)
  from Cons.prems obtain ws' where ws: "ws = v # ws'" by (cases ws) auto
  show ?case
  proof (cases "vs = []")
    case True
    then show ?thesis using Cons.prems ws by (auto simp: is_chain_Cons split: if_splits)
  next
    case False
    then have "ws' \<noteq> []" using Cons.prems ws by (auto simp: is_chain_Cons split: if_splits)
    then have "vs = ws'" using Cons.prems ws False
      by (intro Cons.IH) (auto simp: is_chain_Cons)
    then show ?thesis using ws by simp
  qed
qed

lemma chain_suffix:
  "is_chain par (pre @ vs) \<Longrightarrow> vs \<noteq> [] \<Longrightarrow> is_chain par vs"
proof (induction pre)
  case Nil
  then show ?case by simp
next
  case (Cons a pre)
  then have "pre @ vs \<noteq> []" by simp
  then have "is_chain par (pre @ vs)" using Cons.prems(1) by (simp add: is_chain_Cons)
  then show ?case using Cons by simp
qed

lemma chain_distinct: "is_chain par vs \<Longrightarrow> distinct vs"
proof (induction vs)
  case Nil
  then show ?case by simp
next
  case (Cons v vs)
  show ?case
  proof (cases "vs = []")
    case True
    then show ?thesis by simp
  next
    case False
    then have d: "distinct vs" using Cons by (auto simp: is_chain_Cons)
    have "v \<notin> set vs"
    proof
      assume "v \<in> set vs"
      then obtain a b where ab: "vs = a @ v # b" by (meson split_list)
      have "is_chain par (v # b)"
        using Cons.prems chain_suffix[of par "v # a" "v # b"] by (simp add: ab)
      from chain_unique[OF this Cons.prems] have "v # b = v # vs" by simp
      then have "length b = length (a @ v # b)" using ab by simp
      then show False by simp
    qed
    then show ?thesis using d by simp
  qed
qed

lemma walk_chain:
  "is_chain par vs \<Longrightarrow> \<forall>x \<in> set vs. x \<noteq> - 1 \<Longrightarrow> length vs \<le> n \<Longrightarrow>
   walk_parents par n (hd vs) = Some vs"
proof (induction n arbitrary: vs)
  case 0
  then show ?case by simp
next
  case (Suc n)
  then obtain v rest where vs: "vs = v # rest" by (cases vs) auto
  show ?case
  proof (cases "rest = []")
    case True
    then have "par v = - 1" "v \<noteq> - 1" using Suc.prems vs by auto
    then show ?thesis using vs True by (cases n) auto
  next
    case False
    then have "is_chain par rest" "par v = hd rest" using Suc.prems vs by (auto simp: is_chain_Cons)
    moreover from this have "walk_parents par n (hd rest) = Some rest"
      using Suc.prems vs by (intro Suc.IH) auto
    ultimately show ?thesis using Suc.prems vs by simp
  qed
qed

lemma chain_last: "is_chain par vs \<Longrightarrow> par (last vs) = - 1"
proof (induction vs)
  case Nil
  then show ?case by simp
next
  case (Cons v vs)
  then show ?case by (cases vs) auto
qed

lemma chain_upd: "v \<notin> set vs \<Longrightarrow> is_chain (par(v := u)) vs = is_chain par vs"
  by (induction vs) (auto simp: is_chain_Cons)

lemma chain_redirect:
  "is_chain par (pre @ v # post) \<Longrightarrow> is_chain par' (v # cu) \<Longrightarrow>
   \<forall>y \<in> set pre. par' y = par y \<Longrightarrow> v \<noteq> - 1 \<Longrightarrow> is_chain par' (pre @ v # cu)"
proof (induction pre)
  case Nil
  then show ?case by simp
next
  case (Cons a pre)
  then show ?case by (cases pre) (auto simp: is_chain_Cons)
qed

lemma chain_g_mono:
  "is_chain par vs \<Longrightarrow> \<forall>x \<in> set vs. par x \<noteq> - 1 \<longrightarrow> gs (par x) \<le> (gs x :: real) \<Longrightarrow>
   \<forall>x \<in> set vs. gs x \<le> gs (hd vs)"
proof (induction vs)
  case Nil
  then show ?case by simp
next
  case (Cons v vs)
  show ?case
  proof (cases "vs = []")
    case True
    then show ?thesis by simp
  next
    case False
    then have c: "is_chain par vs" "par v = hd vs" "hd vs \<noteq> - 1"
      using Cons.prems by (auto simp: is_chain_Cons)
    have "\<forall>x \<in> set vs. gs x \<le> gs (hd vs)" using Cons.IH[OF c(1)] Cons.prems(2) by simp
    moreover have "gs (hd vs) \<le> gs v" using Cons.prems(2) c by auto
    ultimately show ?thesis by auto
  qed
qed

lemma improve_inv_B:
  assumes invA: "inv_A g s t B st" and invB: "inv_B g s st" and bg: "bounded_graph g t B"
    and u: "0 \<le> u" "u < num_nodes g" "g_score st u < DBL_MAX"
    and e: "eid \<in> set (out_edges (nodes g u))" "edge_ok g eid"
    and lt: "g_score st u + weight g eid < g_score st (to_node (edges g eid))"
  shows "inv_B g s (improve st u (to_node (edges g eid)) (g_score st u + weight g eid)
           (hval g t (to_node (edges g eid))))"
proof -
  let ?V = "num_nodes g"
  define v where "v = to_node (edges g eid)"
  define tg where "tg = g_score st u + weight g eid"
  define hv where "hv = hval g t v"
  let ?st = "improve st u v tg hv"
  let ?par = "(parent st)(v := u)"
  let ?gs = "(g_score st)(v := tg)"
  have v: "0 \<le> v" "v < ?V" using e(2) by (auto simp: edge_ok_def v_def)
  have w: "0 \<le> weight g eid" using bg u(1,2) e unfolding bounded_graph_def by blast
  have A: "g_score st s = 0" "\<And>x. 0 \<le> x \<Longrightarrow> x < ?V \<Longrightarrow> 0 \<le> g_score st x \<and> g_score st x \<le> DBL_MAX"
    using invA unfolding inv_A_def by blast+
  note BB = invB[unfolded inv_B_def]
  have B1: "parent st s = - 1" by (rule BB[THEN conjunct1])
  have B2: "(parent st x = - 1 \<longleftrightarrow> g_score st x = DBL_MAX)"
    if "0 \<le> x" "x < ?V" "x \<noteq> s" for x
    using BB[THEN conjunct2, THEN conjunct1, rule_format, of x] that by simp
  have B3: "0 \<le> parent st x \<and> parent st x < ?V
           \<and> g_score st (parent st x) \<le> g_score st x
           \<and> (\<exists>eid \<in> set (out_edges (nodes g (parent st x))).
                 edge_ok g eid \<and> to_node (edges g eid) = x
                 \<and> g_score st (parent st x) + weight g eid \<le> g_score st x)"
    if "0 \<le> x" "x < ?V" "parent st x \<noteq> - 1" for x
    by (rule BB[THEN conjunct2, THEN conjunct2, THEN conjunct1, rule_format, of x]) (use that in simp)
  have B4: "\<exists>vs. vs \<noteq> [] \<and> hd vs = x \<and> is_chain (parent st) vs
                 \<and> (\<forall>y \<in> set vs. 0 \<le> y \<and> y < ?V)"
    if "0 \<le> x" "x < ?V" "g_score st x < DBL_MAX" for x
    by (rule BB[THEN conjunct2, THEN conjunct2, THEN conjunct2, rule_format, of x]) (use that in simp)
  have ltv: "tg < g_score st v" using lt by (simp add: tg_def v_def)
  have gu0: "0 \<le> g_score st u" using A(2)[OF u(1,2)] by simp
  have tg0: "0 \<le> tg" using gu0 w by (simp add: tg_def)
  have gutg: "g_score st u \<le> tg" using w by (simp add: tg_def)
  have tgD: "tg < DBL_MAX" using ltv A(2)[OF v] by linarith
  have vu: "v \<noteq> u" using ltv w by (auto simp: tg_def)
  have vs: "v \<noteq> s" using ltv tg0 A(1) by auto
  have un: "u \<noteq> - 1" using u(1) by auto
  have vn: "v \<noteq> - 1" using v(1) by auto
  have gle: "\<And>x. ?gs x \<le> g_score st x" using ltv by simp
  \<comment> \<open>the chain of \<open>u\<close> avoids \<open>v\<close>\<close>
  obtain cu where cu: "cu \<noteq> []" "hd cu = u" "is_chain (parent st) cu"
    "\<forall>y \<in> set cu. 0 \<le> y \<and> y < ?V"
    using B4[OF u] by blast
  have "\<forall>x \<in> set cu. parent st x \<noteq> - 1 \<longrightarrow> g_score st (parent st x) \<le> g_score st x"
  proof (intro ballI impI)
    fix x assume "x \<in> set cu" "parent st x \<noteq> - 1"
    then show "g_score st (parent st x) \<le> g_score st x" using B3[of x] cu(4) by simp
  qed
  from chain_g_mono[OF cu(3) this] have "\<forall>x \<in> set cu. g_score st x \<le> g_score st u"
    by (simp add: cu(2))
  then have vcu: "v \<notin> set cu"
  proof (rule contrapos_pn)
    assume "v \<in> set cu"
    then show "\<not> (\<forall>x \<in> set cu. g_score st x \<le> g_score st u)"
      using ltv gutg by (intro notI) (auto dest!: bspec[of _ _ v])
  qed
  have cu': "is_chain ?par cu" using cu(3) vcu by (simp add: chain_upd)
  have vcu': "is_chain ?par (v # cu)"
    using cu' cu(1,2) un by (simp add: is_chain_Cons)
  show ?thesis
    unfolding inv_B_def v_def[symmetric] tg_def[symmetric] hv_def[symmetric] improve_simps
  proof (intro conjI allI impI)
    show "?par s = - 1" using vs B1 by simp
  next
    fix x assume "0 \<le> x \<and> x < ?V \<and> x \<noteq> s"
    then show "(?par x = - 1) = (?gs x = DBL_MAX)"
      using B2[of x] un tgD by auto
  next
    fix x assume x: "0 \<le> x \<and> x < ?V \<and> ?par x \<noteq> - 1"
    show "0 \<le> ?par x" "?par x < ?V"
      using x B3[of x] u by (auto split: if_splits)
    show "?gs (?par x) \<le> ?gs x"
    proof (cases "x = v")
      case True
      then show ?thesis using vu gutg by simp
    next
      case False
      then have "g_score st (parent st x) \<le> g_score st x" using x B3[of x] by simp
      moreover have "?par x = parent st x" "?gs x = g_score st x" using False by simp_all
      ultimately show ?thesis using gle[of "parent st x"] by (simp only:)
    qed
    show "\<exists>eid \<in> set (out_edges (nodes g (?par x))).
             edge_ok g eid \<and> to_node (edges g eid) = x \<and> ?gs (?par x) + weight g eid \<le> ?gs x"
    proof (cases "x = v")
      case True
      then show ?thesis using e vu by (auto simp: v_def tg_def intro!: bexI[of _ eid])
    next
      case False
      then obtain e' where e': "e' \<in> set (out_edges (nodes g (parent st x)))" "edge_ok g e'"
        "to_node (edges g e') = x" "g_score st (parent st x) + weight g e' \<le> g_score st x"
        using x B3[of x] by auto
      have "?gs (parent st x) + weight g e' \<le> g_score st x"
        using e'(4) gle[of "parent st x"] by linarith
      then show ?thesis using False e' by (auto intro!: bexI[of _ e'])
    qed
  next
    fix x assume x: "0 \<le> x \<and> x < ?V \<and> ?gs x < DBL_MAX"
    show "\<exists>vs. vs \<noteq> [] \<and> hd vs = x \<and> is_chain ?par vs \<and> (\<forall>y \<in> set vs. 0 \<le> y \<and> y < ?V)"
    proof (cases "x = v")
      case True
      then show ?thesis using vcu' cu(4) v by (intro exI[of _ "v # cu"]) auto
    next
      case False
      then obtain vs where vs: "vs \<noteq> []" "hd vs = x" "is_chain (parent st) vs"
        "\<forall>y \<in> set vs. 0 \<le> y \<and> y < ?V"
        using x B4[of x] by auto
      show ?thesis
      proof (cases "v \<in> set vs")
        case False
        then show ?thesis using vs by (intro exI[of _ vs]) (simp add: chain_upd)
      next
        case True
        then obtain pre post where sp: "vs = pre @ v # post" "v \<notin> set pre"
          by (meson split_list_first)
        have pne: "pre \<noteq> []" using sp vs(2) \<open>x \<noteq> v\<close> by (cases pre) auto
        have c1: "is_chain (parent st) (pre @ v # post)" using vs(3) by (simp only: sp(1))
        have c2: "\<forall>y \<in> set pre. ?par y = parent st y" using sp(2) by auto
        have "is_chain ?par (pre @ v # cu)"
          by (rule chain_redirect[OF c1 vcu' c2 vn])
        moreover have "hd (pre @ v # cu) = x" using pne vs(2) sp by simp
        moreover have "\<forall>y \<in> set (pre @ v # cu). 0 \<le> y \<and> y < ?V"
          using vs(4) sp cu(4) v by auto
        ultimately show ?thesis by (intro exI[of _ "pre @ v # cu"]) simp
      qed
    qed
  qed
qed

lemma improve_open:
  assumes "inv_A g s t B st" "0 \<le> v" "v < num_nodes g" "0 \<le> x" "x < num_nodes g"
    and "isInMinHeap (minHeap st) v \<longrightarrow> tg + h \<le> dist (entry (minHeap st) v)"
  shows "isInMinHeap (minHeap (improve st u v tg h)) x \<longleftrightarrow> isInMinHeap (minHeap st) x"
proof (cases "isInMinHeap (minHeap st) v")
  case False
  then show ?thesis by (simp add: improve_simps)
next
  case True
  have I: "valid_heap (minHeap st)" "ids_ok (num_nodes g) (minHeap st)"
    using assms(1) unfolding inv_A_def by blast+
  from decreaseKey_spec(4)[OF I assms(2,3) True _ assms(4,5)] assms(6) True
  show ?thesis by (simp add: improve_simps)
qed

text \<open>With bounded weights the \<open>f\<close> score of a node that is reached does not overflow.\<close>

lemma add_f_bounded:
  assumes bg: "bounded_graph g t B" and u: "0 \<le> u" "u < num_nodes g"
    and inv: "inv_relax g s t B u st"
    and e: "eid \<in> set (out_edges (nodes g u))"
  shows "edge_ok g eid \<longrightarrow>
      add_f (g_score st u + weight g eid) (hval g t (to_node (edges g eid)))
        = g_score st u + weight g eid + hval g t (to_node (edges g eid))"
proof
  assume ok: "edge_ok g eid"
  let ?v = "to_node (edges g eid)"
  have v: "0 \<le> ?v" "?v < num_nodes g" using ok by (auto simp: edge_ok_def)
  have gu: "g_score st u + B \<le> B * extracted g st"
    using inv unfolding inv_relax_def by blast
  have w: "weight g eid \<le> B" and B0: "0 \<le> B"
    and hb: "B * real_of_int (num_nodes g) + hval g t ?v < DBL_MAX"
    using bg u e ok v unfolding bounded_graph_def by blast+
  have "extracted g st \<le> real_of_int (num_nodes g)" by (simp add: extracted_def)
  then have "B * extracted g st \<le> B * real_of_int (num_nodes g)"
    using B0 by (rule mult_left_mono)
  then have a: "g_score st u + weight g eid + hval g t ?v < DBL_MAX" using gu w hb by linarith
  have "0 \<le> B * real_of_int (num_nodes g)" using B0 u by simp
  then have "hval g t ?v < DBL_MAX" using hb by linarith
  then have b: "hval g t ?v \<noteq> INFINITY" using INFINITY_gt by linarith
  show "add_f (g_score st u + weight g eid) (hval g t ?v)
        = g_score st u + weight g eid + hval g t ?v"
    using a b by (simp add: add_f_def)
qed

lemma relax_edge_inv:
  assumes t: "0 \<le> t" "t < num_nodes g" and bg: "bounded_graph g t B"
    and u: "0 \<le> u" "u < num_nodes g"
    and inv: "inv_relax g s t B u st"
    and e: "eid \<in> set (out_edges (nodes g u))"
  shows "\<exists>st1. relax_edge g t u st eid = Some st1 \<and> inv_relax g s t B u st1
     \<and> heap_size (minHeap st1) = heap_size (minHeap st)
     \<and> g_score st1 u = g_score st u
     \<and> (\<forall>x. g_score st1 x \<le> g_score st x)
     \<and> (\<forall>x. 0 \<le> x \<and> x < num_nodes g \<longrightarrow>
           (isInMinHeap (minHeap st1) x \<longleftrightarrow> isInMinHeap (minHeap st) x))
     \<and> (edge_ok g eid \<longrightarrow> g_score st1 (to_node (edges g eid)) \<le> g_score st u + weight g eid)"
proof -
  let ?v = "to_node (edges g eid)"
  let ?tg = "g_score st u + weight g eid"
  let ?c = "edge_ok g eid \<and> g_score st u \<noteq> DBL_MAX \<and> ?tg < g_score st ?v"
  let ?st = "improve st u ?v ?tg (hval g t ?v)"
  note eq = relax_edge_eq[OF t add_f_bounded[OF bg u inv e]]
  have iA: "inv_A g s t B st" and iB: "inv_B g s st" and iC: "inv_C_but g u st"
    and gu: "g_score st u + B \<le> B * extracted g st" "g_score st u < DBL_MAX"
    using inv unfolding inv_relax_def by blast+
  show ?thesis
  proof (cases ?c)
    case False
    then have "relax_edge g t u st eid = Some st" by (simp only: eq if_False)
    moreover have "edge_ok g eid \<longrightarrow> g_score st ?v \<le> ?tg" using False gu(2) by auto
    ultimately show ?thesis using inv by simp
  next
    case True
    then have ok: "edge_ok g eid" and lt: "?tg < g_score st ?v" by auto
    have r: "relax_edge g t u st eid = Some ?st" using eq True by simp
    note A = improve_inv_A[OF iA bg u gu(1) e ok lt]
    note B = improve_inv_B[OF iA iB bg u gu(2) e ok lt]
    have v: "0 \<le> ?v" "?v < num_nodes g" using ok by (auto simp: edge_ok_def)
    have gs: "g_score ?st = (g_score st)(?v := ?tg)" by (simp add: improve_simps)
    have mono: "\<forall>x. g_score ?st x \<le> g_score st x" using lt by (simp add: gs)
    have key: "isInMinHeap (minHeap st) ?v \<longrightarrow> ?tg + hval g t ?v \<le> dist (entry (minHeap st) ?v)"
    proof
      assume o: "isInMinHeap (minHeap st) ?v"
      have Iv: "g_score st ?v \<le> DBL_MAX"
        "dist (entry (minHeap st) ?v)
          = (if g_score st ?v < DBL_MAX then g_score st ?v + hval g t ?v else DBL_MAX)"
        using iA v o unfolding inv_A_def by blast+
      have dk: "\<forall>x. 0 \<le> x \<and> x < num_nodes g \<and> isInMinHeap (minHeap ?st) x \<longrightarrow>
          dist (entry (minHeap ?st) x)
            = (if g_score ?st x < DBL_MAX then g_score ?st x + hval g t x else DBL_MAX)"
        using A(1) unfolding inv_A_def by blast
      have w: "0 \<le> weight g eid" "weight g eid \<le> B" and B0: "0 \<le> B"
        and hb: "B * real_of_int (num_nodes g) + hval g t ?v < DBL_MAX"
        using bg u e ok v unfolding bounded_graph_def by blast+
      have "extracted g st \<le> real_of_int (num_nodes g)" by (simp add: extracted_def)
      then have "B * extracted g st \<le> B * real_of_int (num_nodes g)"
        using B0 by (rule mult_left_mono)
      then have "?tg + hval g t ?v < DBL_MAX" using gu(1) w hb by linarith
      then show "?tg + hval g t ?v \<le> dist (entry (minHeap st) ?v)"
        using Iv lt by (simp split: if_splits)
    qed
    have op: "\<forall>x. 0 \<le> x \<and> x < num_nodes g \<longrightarrow>
           (isInMinHeap (minHeap ?st) x \<longleftrightarrow> isInMinHeap (minHeap st) x)"
      using improve_open[OF iA v _ _ key] by blast
    have C: "inv_C_but g u ?st"
      unfolding inv_C_but_def
    proof (intro allI impI)
      fix x assume x: "0 \<le> x \<and> x < num_nodes g \<and> x \<noteq> u \<and> \<not> isInMinHeap (minHeap ?st) x"
      then have "\<not> isInMinHeap (minHeap st) x" using op by blast
      then have old: "g_score st x < DBL_MAX
        \<and> (\<forall>eid \<in> set (out_edges (nodes g x)). edge_ok g eid \<longrightarrow>
              g_score st (to_node (edges g eid)) < DBL_MAX)"
        using iC x unfolding inv_C_but_def by blast
      show "g_score ?st x < DBL_MAX
        \<and> (\<forall>eid \<in> set (out_edges (nodes g x)). edge_ok g eid \<longrightarrow>
              g_score ?st (to_node (edges g eid)) < DBL_MAX)"
      proof (intro conjI ballI impI)
        show "g_score ?st x < DBL_MAX" using old mono by (meson le_less_trans)
        fix e' assume "e' \<in> set (out_edges (nodes g x))" "edge_ok g e'"
        then have "g_score st (to_node (edges g e')) < DBL_MAX" using old by blast
        then show "g_score ?st (to_node (edges g e')) < DBL_MAX" using mono by (meson le_less_trans)
      qed
    qed
    have ex: "extracted g ?st = extracted g st" using A(3) by (simp add: extracted_def)
    have "inv_relax g s t B u ?st"
      unfolding inv_relax_def using A(1,2) B C gu by (simp add: ex)
    moreover have "g_score ?st ?v \<le> ?tg" by (simp add: gs)
    ultimately show ?thesis using r A(2,3) mono op by simp
  qed
qed

lemma relax_loop_inv:
  assumes t: "0 \<le> t" "t < num_nodes g" and bg: "bounded_graph g t B"
    and u: "0 \<le> u" "u < num_nodes g"
  shows "inv_relax g s t B u st \<Longrightarrow> set es \<subseteq> set (out_edges (nodes g u)) \<Longrightarrow>
     \<exists>st1. relax_loop g t u es st = Some st1 \<and> inv_relax g s t B u st1
     \<and> heap_size (minHeap st1) = heap_size (minHeap st)
     \<and> g_score st1 u = g_score st u
     \<and> (\<forall>x. g_score st1 x \<le> g_score st x)
     \<and> (\<forall>x. 0 \<le> x \<and> x < num_nodes g \<longrightarrow>
           (isInMinHeap (minHeap st1) x \<longleftrightarrow> isInMinHeap (minHeap st) x))
     \<and> (\<forall>eid \<in> set es. edge_ok g eid \<longrightarrow>
           g_score st1 (to_node (edges g eid)) \<le> g_score st u + weight g eid)"
proof (induction es arbitrary: st)
  case Nil
  then show ?case by simp
next
  case (Cons eid es)
  have e: "eid \<in> set (out_edges (nodes g u))" and es: "set es \<subseteq> set (out_edges (nodes g u))"
    using Cons.prems(2) by auto
  from relax_edge_inv[OF t bg u Cons.prems(1) e]
  obtain st1 where 1: "relax_edge g t u st eid = Some st1" "inv_relax g s t B u st1"
    "heap_size (minHeap st1) = heap_size (minHeap st)"
    "g_score st1 u = g_score st u"
    "\<forall>x. g_score st1 x \<le> g_score st x"
    "\<forall>x. 0 \<le> x \<and> x < num_nodes g \<longrightarrow>
           (isInMinHeap (minHeap st1) x \<longleftrightarrow> isInMinHeap (minHeap st) x)"
    "edge_ok g eid \<longrightarrow> g_score st1 (to_node (edges g eid)) \<le> g_score st u + weight g eid"
    by blast
  from Cons.IH[OF 1(2) es]
  obtain st2 where 2: "relax_loop g t u es st1 = Some st2" "inv_relax g s t B u st2"
    "heap_size (minHeap st2) = heap_size (minHeap st1)"
    "g_score st2 u = g_score st1 u"
    "\<forall>x. g_score st2 x \<le> g_score st1 x"
    "\<forall>x. 0 \<le> x \<and> x < num_nodes g \<longrightarrow>
           (isInMinHeap (minHeap st2) x \<longleftrightarrow> isInMinHeap (minHeap st1) x)"
    "\<forall>eid \<in> set es. edge_ok g eid \<longrightarrow>
           g_score st2 (to_node (edges g eid)) \<le> g_score st1 u + weight g eid"
    by blast
  have a: "relax_loop g t u (eid # es) st = Some st2" using 1(1) 2(1) by simp
  have b: "\<forall>x. g_score st2 x \<le> g_score st x"
  proof
    fix x show "g_score st2 x \<le> g_score st x"
      using 1(5)[rule_format, of x] 2(5)[rule_format, of x] by linarith
  qed
  have c: "\<forall>e' \<in> set (eid # es). edge_ok g e' \<longrightarrow>
           g_score st2 (to_node (edges g e')) \<le> g_score st u + weight g e'"
  proof (intro ballI impI)
    fix e' assume e': "e' \<in> set (eid # es)" "edge_ok g e'"
    show "g_score st2 (to_node (edges g e')) \<le> g_score st u + weight g e'"
    proof (cases "e' = eid")
      case True
      then show ?thesis
        using 1(7) e'(2) 2(5)[rule_format, of "to_node (edges g eid)"] by simp
    next
      case False
      then have "e' \<in> set es" using e'(1) by simp
      then show ?thesis using 2(7) e'(2) 1(4) by simp
    qed
  qed
  show ?case
    apply (rule exI[of _ st2])
    apply (intro conjI a 2(2) b c)
    using 1(3) 2(3) apply simp
    using 1(4) 2(4) apply simp
    using 1(6) 2(6) apply simp
    done
qed

lemma reach_valid: "reach g s v \<Longrightarrow> 0 \<le> v \<and> v < num_nodes g"
  by (induction rule: reach.induct) (auto simp: edge_ok_def)

lemma bounded_sum:
  assumes bg: "bounded_graph g t B" and v: "0 \<le> v" "v < num_nodes g"
    and inv: "inv_A g s t B st" and fin: "g_score st v < DBL_MAX"
  shows "g_score st v + hval g t v < DBL_MAX"
proof -
  have B0: "0 \<le> B" and hb: "B * real_of_int (num_nodes g) + hval g t v < DBL_MAX"
    using bg v unfolding bounded_graph_def by blast+
  have "g_score st v \<le> B * extracted g st" using inv v fin unfolding inv_A_def by blast
  moreover have "extracted g st \<le> real_of_int (num_nodes g)" by (simp add: extracted_def)
  then have "B * extracted g st \<le> B * real_of_int (num_nodes g)"
    using B0 by (rule mult_left_mono)
  ultimately show ?thesis using hb by linarith
qed

lemma astar_start_inv:
  assumes s: "0 \<le> s" "s < num_nodes g" and t: "0 \<le> t" "t < num_nodes g"
    and bg: "bounded_graph g t B"
  shows "inv_loop g s t B (astar_start g s (hval g t s))"
proof -
  let ?V = "num_nodes g"
  let ?Hi = "minHeap (astar_init ?V)"
  let ?h0 = "hval g t s"
  let ?st = "astar_start g s ?h0"
  have V: "0 \<le> ?V" using s by simp
  note I = astar_init_heap[OF V]
  have B0: "0 \<le> B" and hb: "B * real_of_int ?V + ?h0 < DBL_MAX"
    using bg s unfolding bounded_graph_def by blast+
  have "0 \<le> B * real_of_int ?V" using B0 V by simp
  then have h0: "?h0 < DBL_MAX" using hb by linarith
  have le: "?h0 \<le> dist (entry ?Hi s)" using I(5)[OF s] h0 by simp
  note D = decreaseKey_spec[OF I(1,2) s I(4)[OF s] le]
  have H: "minHeap ?st = decreaseKey ?Hi s ?h0" by (simp add: astar_start_simps)
  have gs: "g_score ?st = (\<lambda>i. DBL_MAX)(s := 0)" and ps: "parent ?st = (\<lambda>i. - 1)"
    by (simp_all add: astar_start_simps)
  have open_all: "\<And>v. 0 \<le> v \<Longrightarrow> v < ?V \<Longrightarrow> isInMinHeap (minHeap ?st) v"
    using D(4) I(4) by (simp add: H)
  have ex: "extracted g ?st = 0" using D(3) I(3) V by (simp add: extracted_def H)
  have A: "inv_A g s t B ?st"
    unfolding inv_A_def
  proof (intro conjI allI impI)
    show "valid_heap (minHeap ?st)" using D(1) by (simp add: H)
    show "ids_ok ?V (minHeap ?st)" using D(2) by (simp add: H)
    show "real (heap_size (minHeap ?st)) \<le> real_of_int ?V" using D(3) I(3) V by (simp add: H)
    show "g_score ?st s = 0" by (simp add: gs)
  next
    fix v assume v: "0 \<le> v \<and> v < ?V"
    show "0 \<le> g_score ?st v" using DBL_MAX_pos by (simp add: gs)
    show "g_score ?st v \<le> DBL_MAX" using DBL_MAX_pos by (simp add: gs)
    { assume "g_score ?st v < DBL_MAX"
      then have "v = s" by (simp add: gs split: if_splits)
      then show "g_score ?st v \<le> B * extracted g ?st" by (simp add: gs ex) }
    { assume "isInMinHeap (minHeap ?st) v"
      show "dist (entry (minHeap ?st) v)
          = (if g_score ?st v < DBL_MAX then g_score ?st v + hval g t v else DBL_MAX)"
      proof (cases "v = s")
        case True
        then show ?thesis using D(5) DBL_MAX_pos by (simp add: H gs)
      next
        case False
        then have "entry (minHeap ?st) v = entry ?Hi v"
          using D(6)[of v] v I(4)[of v] by (simp add: H)
        then show ?thesis using I(5)[of v] v False by (simp add: gs)
      qed }
  qed
  have B: "inv_B g s ?st"
    unfolding inv_B_def
  proof (intro conjI allI impI)
    show "parent ?st s = - 1" by (simp add: ps)
  next
    fix v assume "0 \<le> v \<and> v < ?V \<and> v \<noteq> s"
    then show "(parent ?st v = - 1) = (g_score ?st v = DBL_MAX)" by (simp add: ps gs)
  next
    fix v assume "0 \<le> v \<and> v < ?V \<and> parent ?st v \<noteq> - 1"
    then have False by (simp add: ps)
    then show "0 \<le> parent ?st v" "parent ?st v < ?V"
      "g_score ?st (parent ?st v) \<le> g_score ?st v"
      "\<exists>eid \<in> set (out_edges (nodes g (parent ?st v))).
         edge_ok g eid \<and> to_node (edges g eid) = v
         \<and> g_score ?st (parent ?st v) + weight g eid \<le> g_score ?st v"
      by blast+
  next
    fix v assume v: "0 \<le> v \<and> v < ?V \<and> g_score ?st v < DBL_MAX"
    then have vs: "v = s" by (simp add: gs split: if_splits)
    show "\<exists>vs. vs \<noteq> [] \<and> hd vs = v \<and> is_chain (parent ?st) vs
                 \<and> (\<forall>x \<in> set vs. 0 \<le> x \<and> x < ?V)"
      by (rule exI[of _ "[s]"]) (use vs s in \<open>simp add: ps\<close>)
  qed
  have C: "inv_C g ?st"
    unfolding inv_C_def using open_all by blast
  show ?thesis unfolding inv_loop_def using A B C open_all[OF t] by blast
qed

text \<open>Taking the minimum out of the heap.\<close>

lemma extract_step:
  assumes inv: "inv_loop g s t B st" and bg: "bounded_graph g t B"
    and t: "0 \<le> t" "t < num_nodes g"
  shows "\<exists>r h. extractMin (minHeap st) = (Some r, h)
      \<and> 0 \<le> heap_node_id r \<and> heap_node_id r < num_nodes g
      \<and> heap_size h < heap_size (minHeap st)
      \<and> isInMinHeap (minHeap st) (heap_node_id r)
      \<and> \<not> isInMinHeap h (heap_node_id r)
      \<and> (\<forall>x. 0 \<le> x \<and> x < num_nodes g \<and> x \<noteq> heap_node_id r \<longrightarrow>
            (isInMinHeap h x \<longleftrightarrow> isInMinHeap (minHeap st) x))
      \<and> inv_A g s t B (st\<lparr> minHeap := h \<rparr>)
      \<and> inv_B g s (st\<lparr> minHeap := h \<rparr>)
      \<and> inv_C_but g (heap_node_id r) (st\<lparr> minHeap := h \<rparr>)
      \<and> (dist r = DBL_MAX \<longrightarrow>
            (\<forall>x. 0 \<le> x \<and> x < num_nodes g \<and> isInMinHeap (minHeap st) x \<longrightarrow>
               g_score st x = DBL_MAX))
      \<and> (dist r \<noteq> DBL_MAX \<longrightarrow>
            g_score st (heap_node_id r) < DBL_MAX
            \<and> g_score st (heap_node_id r) + B \<le> B * extracted g (st\<lparr> minHeap := h \<rparr>))"
proof -
  let ?V = "num_nodes g"
  let ?H = "minHeap st"
  let ?r = "array ?H 0"
  let ?u = "heap_node_id ?r"
  let ?h = "snd (extractMin ?H)"
  let ?st = "st\<lparr> minHeap := ?h \<rparr>"
  have iA: "inv_A g s t B st" and iB: "inv_B g s st" and iC: "inv_C g st"
    and ot: "isInMinHeap ?H t"
    using inv unfolding inv_loop_def by blast+
  have vh: "valid_heap ?H" and io: "ids_ok ?V ?H"
    and sz: "real (heap_size ?H) \<le> real_of_int ?V"
    and gs0: "g_score st s = 0"
    using iA unfolding inv_A_def by blast+
  have per: "\<And>v. 0 \<le> v \<Longrightarrow> v < ?V \<Longrightarrow>
           0 \<le> g_score st v \<and> g_score st v \<le> DBL_MAX
           \<and> (g_score st v < DBL_MAX \<longrightarrow> g_score st v \<le> B * extracted g st)
           \<and> (isInMinHeap ?H v \<longrightarrow>
                dist (entry ?H v)
                  = (if g_score st v < DBL_MAX then g_score st v + hval g t v else DBL_MAX))"
    using iA unfolding inv_A_def by blast
  have ne: "0 < heap_size ?H" using ot by (simp add: isInMinHeap_def)
  note E = extractMin_spec[OF vh io ne]
  have B0: "0 \<le> B" using bg unfolding bounded_graph_def by blast
  have u: "0 \<le> ?u" "?u < ?V" using E(2) by simp_all
  have eq: "extractMin ?H = (Some ?r, ?h)" using E(1) by (simp add: prod_eq_iff)
  have ex: "extracted g ?st = extracted g st + 1"
    using E(7) ne by (simp add: extracted_def of_nat_diff)
  have exle: "B * extracted g st \<le> B * extracted g ?st"
    using B0 by (simp add: ex algebra_simps)
  have keyu: "dist ?r = (if g_score st ?u < DBL_MAX then g_score st ?u + hval g t ?u else DBL_MAX)"
    using per[OF u] E(3,4) by simp
  have A: "inv_A g s t B ?st"
    unfolding inv_A_def
  proof (intro conjI allI impI)
    show "valid_heap (minHeap ?st)" using E(5) by simp
    show "ids_ok ?V (minHeap ?st)" using E(6) by simp
    show "real (heap_size (minHeap ?st)) \<le> real_of_int ?V" using E(7) sz by simp
    show "g_score ?st s = 0" using gs0 by simp
  next
    fix v assume v: "0 \<le> v \<and> v < ?V"
    note pv = per[of v]
    show "0 \<le> g_score ?st v" using pv v by simp
    show "g_score ?st v \<le> DBL_MAX" using pv v by simp
    { assume "g_score ?st v < DBL_MAX"
      then have "g_score st v \<le> B * extracted g st" using pv v by simp
      then show "g_score ?st v \<le> B * extracted g ?st" using exle by simp }
    { assume o: "isInMinHeap (minHeap ?st) v"
      then have vu: "v \<noteq> ?u" using E(8) by auto
      have "isInMinHeap ?H v" "entry ?h v = entry ?H v"
        using E(9)[of v] v vu o by simp_all
      then show "dist (entry (minHeap ?st) v)
          = (if g_score ?st v < DBL_MAX then g_score ?st v + hval g t v else DBL_MAX)"
        using pv v by simp }
  qed
  have B: "inv_B g s ?st" using iB unfolding inv_B_def by simp
  have C: "inv_C_but g ?u ?st"
    unfolding inv_C_but_def
  proof (intro allI impI)
    fix x assume x: "0 \<le> x \<and> x < ?V \<and> x \<noteq> ?u \<and> \<not> isInMinHeap (minHeap ?st) x"
    then have "\<not> isInMinHeap ?H x" using E(9)[of x] by simp
    then have "g_score st x < DBL_MAX
        \<and> (\<forall>eid \<in> set (out_edges (nodes g x)). edge_ok g eid \<longrightarrow>
              g_score st (to_node (edges g eid)) < DBL_MAX)"
      using iC[unfolded inv_C_def, rule_format, of x] x by blast
    then show "g_score ?st x < DBL_MAX
        \<and> (\<forall>eid \<in> set (out_edges (nodes g x)). edge_ok g eid \<longrightarrow>
              g_score ?st (to_node (edges g eid)) < DBL_MAX)"
      by simp
  qed
  have maxcase: "dist ?r = DBL_MAX \<longrightarrow>
            (\<forall>x. 0 \<le> x \<and> x < ?V \<and> isInMinHeap ?H x \<longrightarrow> g_score st x = DBL_MAX)"
  proof (intro impI allI)
    fix x assume d: "dist ?r = DBL_MAX" and x: "0 \<le> x \<and> x < ?V \<and> isInMinHeap ?H x"
    have le: "DBL_MAX \<le> dist (entry ?H x)" using E(10)[of x] x d by simp
    show "g_score st x = DBL_MAX"
    proof (rule ccontr)
      assume "g_score st x \<noteq> DBL_MAX"
      then have fin: "g_score st x < DBL_MAX" using per[of x] x by simp
      then have "dist (entry ?H x) = g_score st x + hval g t x" using per[of x] x by simp
      moreover have "g_score st x + hval g t x < DBL_MAX"
        using bounded_sum[OF bg _ _ iA fin] x by simp
      ultimately show False using le by simp
    qed
  qed
  have fincase: "dist ?r \<noteq> DBL_MAX \<longrightarrow>
            g_score st ?u < DBL_MAX \<and> g_score st ?u + B \<le> B * extracted g ?st"
  proof
    assume d: "dist ?r \<noteq> DBL_MAX"
    then have fin: "g_score st ?u < DBL_MAX" using keyu by (simp split: if_splits)
    then have "g_score st ?u \<le> B * extracted g st" using per[OF u] by simp
    then have "g_score st ?u + B \<le> B * extracted g ?st" by (simp add: ex algebra_simps)
    then show "g_score st ?u < DBL_MAX \<and> g_score st ?u + B \<le> B * extracted g ?st"
      using fin by simp
  qed
  have others: "\<forall>x. 0 \<le> x \<and> x < ?V \<and> x \<noteq> ?u \<longrightarrow> (isInMinHeap ?h x \<longleftrightarrow> isInMinHeap ?H x)"
    using E(9) by blast
  have szlt: "heap_size ?h < heap_size ?H" using E(7) ne by simp
  show ?thesis
    apply (rule exI[of _ ?r], rule exI[of _ ?h])
    apply (intro conjI eq u szlt E(3) E(8) others A B C maxcase)
    using fincase apply simp
    done
qed

lemma closed_reach:
  assumes iC: "inv_C g st" and s: "0 \<le> s" "s < num_nodes g"
    and fin: "\<forall>x. 0 \<le> x \<and> x < num_nodes g \<and> isInMinHeap (minHeap st) x \<longrightarrow>
               g_score st x = DBL_MAX"
    and gs: "g_score st s = 0"
  shows "reach g s v \<Longrightarrow> \<not> isInMinHeap (minHeap st) v"
proof (induction rule: reach.induct)
  case reach_start
  show ?case
  proof
    assume "isInMinHeap (minHeap st) s"
    then have "g_score st s = DBL_MAX" using fin s by blast
    then show False using gs DBL_MAX_pos by simp
  qed
next
  case (reach_step u eid)
  have u: "0 \<le> u \<and> u < num_nodes g" using reach_step.hyps(1) by (rule reach_valid)
  have v: "0 \<le> to_node (edges g eid) \<and> to_node (edges g eid) < num_nodes g"
    using reach_step.hyps(3) by (simp add: edge_ok_def)
  have "g_score st (to_node (edges g eid)) < DBL_MAX"
    using iC[unfolded inv_C_def, rule_format, of u] u reach_step.IH reach_step.hyps(2,3) by blast
  then show ?case using fin v by fastforce
qed

lemma astar_loop_inv:
  assumes s: "0 \<le> s" "s < num_nodes g" and t: "0 \<le> t" "t < num_nodes g"
    and bg: "bounded_graph g t B"
  shows "inv_loop g s t B st \<Longrightarrow>
     \<exists>found st'. astar_loop g t st = Some (found, st')
       \<and> (found \<longrightarrow> inv_A g s t B st' \<and> inv_B g s st' \<and> g_score st' t < DBL_MAX)
       \<and> (\<not> found \<longrightarrow> \<not> reach g s t)"
proof (induction "heap_size (minHeap st)" arbitrary: st rule: less_induct)
  case less
  let ?V = "num_nodes g"
  note inv = less.prems
  have iA: "inv_A g s t B st" and iC: "inv_C g st" and ot: "isInMinHeap (minHeap st) t"
    using inv unfolding inv_loop_def by blast+
  have gs0: "g_score st s = 0" using iA unfolding inv_A_def by blast
  from extract_step[OF inv bg t]
  obtain r h where E: "extractMin (minHeap st) = (Some r, h)"
      "0 \<le> heap_node_id r" "heap_node_id r < ?V"
      "heap_size h < heap_size (minHeap st)"
      "isInMinHeap (minHeap st) (heap_node_id r)"
      "\<not> isInMinHeap h (heap_node_id r)"
      "\<forall>x. 0 \<le> x \<and> x < ?V \<and> x \<noteq> heap_node_id r \<longrightarrow>
            (isInMinHeap h x \<longleftrightarrow> isInMinHeap (minHeap st) x)"
      "inv_A g s t B (st\<lparr> minHeap := h \<rparr>)"
      "inv_B g s (st\<lparr> minHeap := h \<rparr>)"
      "inv_C_but g (heap_node_id r) (st\<lparr> minHeap := h \<rparr>)"
      "dist r = DBL_MAX \<longrightarrow>
            (\<forall>x. 0 \<le> x \<and> x < ?V \<and> isInMinHeap (minHeap st) x \<longrightarrow> g_score st x = DBL_MAX)"
      "dist r \<noteq> DBL_MAX \<longrightarrow>
            g_score st (heap_node_id r) < DBL_MAX
            \<and> g_score st (heap_node_id r) + B \<le> B * extracted g (st\<lparr> minHeap := h \<rparr>)"
    by blast
  let ?u = "heap_node_id r"
  let ?st1 = "st\<lparr> minHeap := h \<rparr>"
  have ne: "\<not> isEmpty (minHeap st)" using E(4) by (simp add: isEmpty_def)
  show ?case
  proof (cases "dist r = DBL_MAX")
    case True
    have run: "astar_loop g t st = Some (False, ?st1)"
      using ne E(1) True by (simp add: astar_loop.simps[of g t st])
    have allmax: "\<forall>x. 0 \<le> x \<and> x < ?V \<and> isInMinHeap (minHeap st) x \<longrightarrow> g_score st x = DBL_MAX"
      using E(11) True by blast
    have "\<not> reach g s t"
      using closed_reach[OF iC s allmax gs0, of t] ot by blast
    then show ?thesis using run by (intro exI[of _ False] exI[of _ ?st1]) simp
  next
    case fin: False
    show ?thesis
    proof (cases "?u = t")
      case True
      have run: "astar_loop g t st = Some (True, ?st1)"
        using ne E(1) fin True by (simp add: astar_loop.simps[of g t st])
      have "g_score ?st1 t < DBL_MAX" using E(12) fin True by simp
      then show ?thesis using run E(8,9) by (intro exI[of _ True] exI[of _ ?st1]) simp
    next
      case False
      have ir: "inv_relax g s t B ?u ?st1"
        unfolding inv_relax_def using E(8,9,10,12) fin by simp
      from relax_loop_inv[OF t bg E(2,3) ir subset_refl]
      obtain st2 where R: "relax_loop g t ?u (out_edges (nodes g ?u)) ?st1 = Some st2"
        "inv_relax g s t B ?u st2"
        "heap_size (minHeap st2) = heap_size (minHeap ?st1)"
        "g_score st2 ?u = g_score ?st1 ?u"
        "\<forall>x. g_score st2 x \<le> g_score ?st1 x"
        "\<forall>x. 0 \<le> x \<and> x < ?V \<longrightarrow>
           (isInMinHeap (minHeap st2) x \<longleftrightarrow> isInMinHeap (minHeap ?st1) x)"
        "\<forall>eid \<in> set (out_edges (nodes g ?u)). edge_ok g eid \<longrightarrow>
           g_score st2 (to_node (edges g eid)) \<le> g_score ?st1 ?u + weight g eid"
        by blast
      have run: "astar_loop g t st = astar_loop g t st2"
        using ne E(1) fin False R(1) by (simp add: astar_loop.simps[of g t st])
      have iA2: "inv_A g s t B st2" and iB2: "inv_B g s st2" and iCb: "inv_C_but g ?u st2"
        and gu: "g_score st2 ?u + B \<le> B * extracted g st2" "g_score st2 ?u < DBL_MAX"
        using R(2) unfolding inv_relax_def by blast+
      have B0: "0 \<le> B"
        and wb: "\<And>eid. eid \<in> set (out_edges (nodes g ?u)) \<Longrightarrow> edge_ok g eid \<Longrightarrow>
                 weight g eid \<le> B"
        and hb: "B * real_of_int ?V < DBL_MAX"
      proof -
        show "0 \<le> B" using bg unfolding bounded_graph_def by blast
        show "\<And>eid. eid \<in> set (out_edges (nodes g ?u)) \<Longrightarrow> edge_ok g eid \<Longrightarrow> weight g eid \<le> B"
          using bg E(2,3) unfolding bounded_graph_def by blast
        have "B * real_of_int ?V + hval g t t < DBL_MAX"
          using bg t unfolding bounded_graph_def by blast
        then show "B * real_of_int ?V < DBL_MAX" using hval_nonneg[of g t t] by linarith
      qed
      have exle: "B * extracted g st2 \<le> B * real_of_int ?V"
        using B0 by (intro mult_left_mono) (simp_all add: extracted_def)
      have C2: "inv_C g st2"
        unfolding inv_C_def
      proof (intro allI impI)
        fix x assume x: "0 \<le> x \<and> x < ?V \<and> \<not> isInMinHeap (minHeap st2) x"
        show "g_score st2 x < DBL_MAX
          \<and> (\<forall>eid \<in> set (out_edges (nodes g x)). edge_ok g eid \<longrightarrow>
                g_score st2 (to_node (edges g eid)) < DBL_MAX)"
        proof (cases "x = ?u")
          case xu: True
          have "\<forall>eid \<in> set (out_edges (nodes g ?u)). edge_ok g eid \<longrightarrow>
                g_score st2 (to_node (edges g eid)) < DBL_MAX"
          proof (intro ballI impI)
            fix eid assume e: "eid \<in> set (out_edges (nodes g ?u))" "edge_ok g eid"
            have "g_score st2 (to_node (edges g eid)) \<le> g_score ?st1 ?u + weight g eid"
              using R(7) e by blast
            also have "\<dots> = g_score st2 ?u + weight g eid" using R(4) by simp
            also have "\<dots> \<le> g_score st2 ?u + B" using wb[OF e] by simp
            also have "\<dots> < DBL_MAX" using gu(1) exle hb by linarith
            finally show "g_score st2 (to_node (edges g eid)) < DBL_MAX" .
          qed
          then show ?thesis using gu(2) xu by simp
        next
          case False
          then show ?thesis using iCb[unfolded inv_C_but_def, rule_format, of x] x by blast
        qed
      qed
      have tu: "t \<noteq> ?u" using False by simp
      have "isInMinHeap (minHeap ?st1) t" using E(7) t tu ot by simp
      then have ot2: "isInMinHeap (minHeap st2) t" using R(6) t by blast
      have inv2: "inv_loop g s t B st2"
        unfolding inv_loop_def using iA2 iB2 C2 ot2 by blast
      have "heap_size (minHeap st2) < heap_size (minHeap st)" using R(3) E(4) by simp
      from less.hyps[OF this inv2] show ?thesis by (simp only: run)
    qed
  qed
qed

lemma least_le: "w \<in> set ws \<Longrightarrow> least ws \<le> w"
  by (induction ws rule: least.induct) auto


lemma cheapest_le:
  "e \<in> set (out_edges (nodes g a)) \<Longrightarrow> edge_ok g e \<Longrightarrow> to_node (edges g e) = b \<Longrightarrow>
   cheapest g a b \<le> weight g e"
  unfolding cheapest_def weights_between_def by (rule least_le) auto

lemma find_edge_loop_sound:
  "0 \<le> find_edge_loop g b l \<Longrightarrow>
   find_edge_loop g b l \<in> set l \<and> find_edge_loop g b l < num_edges g
   \<and> to_node (edges g (find_edge_loop g b l)) = b"
  by (induction l) (auto split: if_splits)

lemma find_edge_loop_complete:
  "e \<in> set l \<Longrightarrow> 0 \<le> e \<Longrightarrow> e < num_edges g \<Longrightarrow> to_node (edges g e) = b \<Longrightarrow>
   0 \<le> find_edge_loop g b l"
  by (induction l) auto

lemma find_edge_id_joins:
  "0 \<le> find_edge_id g a b \<Longrightarrow> joins g (find_edge_id g a b) a b"
  unfolding joins_def find_edge_id_def using find_edge_loop_sound[of g b "out_edges (nodes g a)"]
  by simp

lemma find_edge_id_found:
  "joins g e a b \<Longrightarrow> 0 \<le> find_edge_id g a b"
  unfolding joins_def find_edge_id_def using find_edge_loop_complete[of e "out_edges (nodes g a)" g b]
  by simp

text \<open>The conversion of a node path whose consecutive nodes are joined by edges.\<close>

lemma nodes_to_edges_Inr:
  "nodes_to_edges g m ns out = Inr es \<Longrightarrow> ns \<noteq> [] \<Longrightarrow>
   \<exists>es'. es = out @ es' \<and> path_ok g ns es'"
proof (induction g m ns out rule: nodes_to_edges.induct)
  case (1 g max_edges a b rest out)
  let ?e = "find_edge_id g a b"
  have ok: "0 \<le> ?e" "\<not> max_edges \<le> int (length out)"
    and rec: "nodes_to_edges g max_edges (b # rest) (out @ [?e]) = Inr es"
    using "1.prems"(1) by (auto simp: Let_def split: if_splits)
  from "1.IH"[OF refl _ _ rec] ok
  obtain es' where es': "es = (out @ [?e]) @ es'" "path_ok g (b # rest) es'" by auto
  show ?case
    by (rule exI[of _ "?e # es'"]) (use es' ok find_edge_id_joins[OF ok(1)] in simp)
next
  case (2 g max_edges a out)
  then show ?case by simp
next
  case (3 g max_edges out)
  then show ?case by simp
qed

lemma nodes_to_edges_joined:
  "successively (\<lambda>a b. \<exists>e. joins g e a b) ns \<Longrightarrow> ns \<noteq> [] \<Longrightarrow>
   int (length out) + int (length ns) - 1 \<le> m \<Longrightarrow>
   \<exists>es. nodes_to_edges g m ns out = Inr es"
proof (induction g m ns out rule: nodes_to_edges.induct)
  case (1 g max_edges a b rest out)
  let ?e = "find_edge_id g a b"
  have j: "\<exists>e. joins g e a b" and s: "successively (\<lambda>a b. \<exists>e. joins g e a b) (b # rest)"
    using "1.prems"(1) by simp_all
  have ok: "0 \<le> ?e" using j find_edge_id_found by blast
  have room: "\<not> max_edges \<le> int (length out)" using "1.prems"(3) by simp
  have "\<exists>es. nodes_to_edges g max_edges (b # rest) (out @ [?e]) = Inr es"
    using "1.IH"[OF refl _ _ s] ok room "1.prems"(3) by simp
  then show ?case using ok room by (simp add: Let_def)
next
  case (2 g max_edges a out)
  then show ?case by simp
next
  case (3 g max_edges out)
  then show ?case by simp
qed

lemma path_ok_length: "path_ok g ns es \<Longrightarrow> length ns = Suc (length es)"
  by (induction g ns es rule: path_ok.induct) auto

text \<open>What the parent pointers give along a chain.\<close>

lemma chain_links:
  assumes iB: "inv_B g s st"
  shows "is_chain (parent st) vs \<Longrightarrow> \<forall>x \<in> set vs. 0 \<le> x \<and> x < num_nodes g \<Longrightarrow>
     successively (\<lambda>v u. \<exists>e. joins g e u v) vs
     \<and> hop_cost g (rev vs) + g_score st (last vs) \<le> g_score st (hd vs)"
proof (induction vs)
  case Nil
  then show ?case by simp
next
  case (Cons v vs)
  show ?case
  proof (cases vs)
    case Nil
    then show ?thesis by simp
  next
    case (Cons u rest)
    have c: "parent st v = u" "u \<noteq> - 1" "is_chain (parent st) vs"
      using Cons.prems(1) Cons by simp_all
    have v: "0 \<le> v \<and> v < num_nodes g" using Cons.prems(2) by simp
    have "\<exists>eid \<in> set (out_edges (nodes g (parent st v))).
                 edge_ok g eid \<and> to_node (edges g eid) = v
                 \<and> g_score st (parent st v) + weight g eid \<le> g_score st v"
      using iB[unfolded inv_B_def] v c(1,2) by blast
    then obtain e where e: "e \<in> set (out_edges (nodes g u))" "edge_ok g e"
      "to_node (edges g e) = v" "g_score st u + weight g e \<le> g_score st v"
      using c(1) by auto
    have j: "joins g e u v" using e by (simp add: joins_def edge_ok_def)
    have ch: "cheapest g u v \<le> weight g e" using e by (intro cheapest_le)
    have IH: "successively (\<lambda>v u. \<exists>e. joins g e u v) vs"
      "hop_cost g (rev vs) + g_score st (last vs) \<le> g_score st (hd vs)"
      using Cons.IH[OF c(3)] Cons.prems(2) by simp_all
    have hc: "hop_cost g (rev vs @ [v]) = hop_cost g (rev vs) + cheapest g u v"
    proof -
      have "\<And>xs. hop_cost g (xs @ [u, v]) = hop_cost g (xs @ [u]) + cheapest g u v"
      proof -
        fix xs show "hop_cost g (xs @ [u, v]) = hop_cost g (xs @ [u]) + cheapest g u v"
          by (induction g xs rule: hop_cost.induct) (simp_all)
      qed
      from this[of "rev rest"] show ?thesis using Cons by simp
    qed
    have "successively (\<lambda>v u. \<exists>e. joins g e u v) (v # vs)"
      using IH(1) j Cons by auto
    moreover have "hop_cost g (rev (v # vs)) + g_score st (last (v # vs)) \<le> g_score st (hd (v # vs))"
      using IH(2) hc e(4) ch Cons by simp
    ultimately show ?thesis by blast
  qed
qed

text \<open>The code after the loop, in a state the loop leaves with the target reached.\<close>

lemma reconstruct_found:
  assumes s: "0 \<le> s" "s < num_nodes g" and t: "0 \<le> t" "t < num_nodes g"
    and iA: "inv_A g s t B st" and iB: "inv_B g s st" and fin: "g_score st t < DBL_MAX"
    and room: "num_nodes g \<le> max_nodes" "num_nodes g - 1 \<le> max_edges"
  shows "\<exists>es ns. reconstruct g t max_edges max_nodes st = Route (g_score st t) es ns
     \<and> hd ns = s \<and> last ns = t \<and> distinct ns \<and> (\<forall>x \<in> set ns. 0 \<le> x \<and> x < num_nodes g)
     \<and> path_ok g ns es \<and> hop_cost g ns \<le> g_score st t"
proof -
  let ?V = "num_nodes g"
  let ?par = "parent st"
  obtain vs where vs: "vs \<noteq> []" "hd vs = t" "is_chain ?par vs"
      "\<forall>x \<in> set vs. 0 \<le> x \<and> x < ?V"
    using iB[unfolded inv_B_def] t fin by blast
  have d: "distinct vs" using vs(3) by (rule chain_distinct)
  have "set vs \<subseteq> {0..<?V}" using vs(4) by auto
  then have "card (set vs) \<le> card {0..<?V}" by (intro card_mono) simp_all
  then have len: "length vs \<le> nat ?V" using d by (simp add: distinct_card)
  have ne1: "\<forall>x \<in> set vs. x \<noteq> - 1" using vs(4) by auto
  have w: "walk_parents ?par (nat ?V) t = Some vs"
    using walk_chain[OF vs(3) ne1 len] vs(2) by simp
  have per: "\<And>v. 0 \<le> v \<Longrightarrow> v < ?V \<Longrightarrow> 0 \<le> g_score st v \<and> g_score st v \<le> DBL_MAX"
    using iA unfolding inv_A_def by blast
  have mono: "\<forall>x \<in> set vs. ?par x \<noteq> - 1 \<longrightarrow> g_score st (?par x) \<le> g_score st x"
    using iB[unfolded inv_B_def] vs(4) by blast
  have lastin: "last vs \<in> set vs" using vs(1) by simp
  have "g_score st (last vs) \<le> g_score st (hd vs)"
    using chain_g_mono[OF vs(3) mono] lastin by blast
  then have lfin: "g_score st (last vs) < DBL_MAX" using fin vs(2) by simp
  have lpar: "?par (last vs) = - 1" using vs(3) by (rule chain_last)
  have lv: "0 \<le> last vs \<and> last vs < ?V" using vs(4) lastin by blast
  have ls: "last vs = s"
  proof (rule ccontr)
    assume "last vs \<noteq> s"
    then have "(?par (last vs) = - 1) = (g_score st (last vs) = DBL_MAX)"
      using iB[unfolded inv_B_def] lv by blast
    then show False using lpar lfin by simp
  qed
  have gs0: "g_score st s = 0" using iA unfolding inv_A_def by blast
  note L = chain_links[OF iB vs(3,4)]
  have succ: "successively (\<lambda>a b. \<exists>e. joins g e a b) (rev vs)"
    using L by (simp add: successively_rev)
  have hc: "hop_cost g (rev vs) \<le> g_score st t" using L ls gs0 vs(2) by simp
  have leni: "int (length vs) \<le> ?V" using len s by linarith
  have lenm: "int (length (rev vs)) \<le> max_nodes" using leni room(1) by simp
  have "int (length ([]::int list)) + int (length (rev vs)) - 1 \<le> max_edges"
    using leni room(2) by simp
  from nodes_to_edges_joined[OF succ _ this] vs(1)
  obtain es where es: "nodes_to_edges g max_edges (rev vs) [] = Inr es" by auto
  from nodes_to_edges_Inr[OF es] vs(1) have pk: "path_ok g (rev vs) es" by simp
  have rec: "reconstruct g t max_edges max_nodes st = Route (g_score st t) es (rev vs)"
    using w lenm es by (simp add: reconstruct_def Let_def)
  show ?thesis
    apply (rule exI[of _ es], rule exI[of _ "rev vs"])
    apply (intro conjI rec pk hc)
    using vs(1) ls apply (simp add: hd_rev)
    using vs(1,2) apply (simp add: last_rev)
    using d apply simp
    using vs(4) apply simp
    done
qed

text \<open>A node path joined by edges leads to reachable nodes only.\<close>

lemma path_ok_reach:
  "path_ok g ns es \<Longrightarrow> reach g s (hd ns) \<Longrightarrow> \<forall>x \<in> set ns. 0 \<le> x \<and> x < num_nodes g \<Longrightarrow>
   reach g s (last ns)"
proof (induction g ns es rule: path_ok.induct)
  case (1 g a)
  then show ?case by simp
next
  case (2 g a b rest e es)
  have j: "joins g e a b" and p: "path_ok g (b # rest) es" using "2.prems"(1) by auto
  have ok: "edge_ok g e" using j "2.prems"(3) by (simp add: joins_def edge_ok_def)
  have "reach g s (to_node (edges g e))"
    using "2.prems"(2) j ok by (intro reach_step[of g s a e]) (simp_all add: joins_def)
  then have "reach g s (hd (b # rest))" using j by (simp add: joins_def)
  from "2.IH"[OF p this] "2.prems"(3) show ?case by simp
qed simp_all

text \<open>The search as a whole, on a graph with bounded weights.\<close>

lemma find_route_reachable:
  assumes s: "0 \<le> s" "s < num_nodes g" and t: "0 \<le> t" "t < num_nodes g"
    and bg: "bounded_graph g t B"
    and room: "num_nodes g \<le> max_nodes" "num_nodes g - 1 \<le> max_edges"
    and r: "reach g s t"
  shows "\<exists>cost es ns. find_route_a_star_path g s t max_edges max_nodes = Route cost es ns
     \<and> hd ns = s \<and> last ns = t \<and> distinct ns \<and> (\<forall>x \<in> set ns. 0 \<le> x \<and> x < num_nodes g)
     \<and> path_ok g ns es \<and> hop_cost g ns \<le> cost \<and> 0 \<le> cost
     \<and> cost \<le> B * real_of_int (num_nodes g)"
proof -
  let ?st0 = "astar_start g s (hval g t s)"
  have h: "heuristic g s t = Some (hval g t s)" using s t by (intro heuristic_hval)
  from astar_loop_inv[OF s t bg astar_start_inv[OF s t bg]]
  obtain found st where L: "astar_loop g t ?st0 = Some (found, st)"
    "found \<longrightarrow> inv_A g s t B st \<and> inv_B g s st \<and> g_score st t < DBL_MAX"
    "\<not> found \<longrightarrow> \<not> reach g s t"
    by blast
  have f: found using L(3) r by blast
  then have iA: "inv_A g s t B st" and iB: "inv_B g s st" and fin: "g_score st t < DBL_MAX"
    using L(2) by blast+
  from reconstruct_found[OF s t iA iB fin room]
  obtain es ns where R: "reconstruct g t max_edges max_nodes st = Route (g_score st t) es ns"
    "hd ns = s" "last ns = t" "distinct ns" "\<forall>x \<in> set ns. 0 \<le> x \<and> x < num_nodes g"
    "path_ok g ns es" "hop_cost g ns \<le> g_score st t"
    by blast
  have run: "find_route_a_star_path g s t max_edges max_nodes = Route (g_score st t) es ns"
    using s t h L(1) f R(1) by (simp add: find_route_a_star_path_def)
  have B0: "0 \<le> B" using bg unfolding bounded_graph_def by blast
  have g0: "0 \<le> g_score st t" and gb: "g_score st t \<le> B * extracted g st"
    using iA[unfolded inv_A_def] t fin by blast+
  have "B * extracted g st \<le> B * real_of_int (num_nodes g)"
    using B0 by (intro mult_left_mono) (simp_all add: extracted_def)
  then have gB: "g_score st t \<le> B * real_of_int (num_nodes g)" using gb by linarith
  show ?thesis
    by (intro exI[of _ "g_score st t"] exI[of _ es] exI[of _ ns] conjI run R(2-7) g0 gB)
qed

lemma find_route_unreachable:
  assumes s: "0 \<le> s" "s < num_nodes g" and t: "0 \<le> t" "t < num_nodes g"
    and bg: "bounded_graph g t B"
    and r: "\<not> reach g s t"
  shows "find_route_a_star_path g s t max_edges max_nodes = Rc 1"
proof -
  let ?st0 = "astar_start g s (hval g t s)"
  have h: "heuristic g s t = Some (hval g t s)" using s t by (intro heuristic_hval)
  from astar_loop_inv[OF s t bg astar_start_inv[OF s t bg]]
  obtain found st where L: "astar_loop g t ?st0 = Some (found, st)"
    "found \<longrightarrow> inv_A g s t B st \<and> inv_B g s st \<and> g_score st t < DBL_MAX"
    "\<not> found \<longrightarrow> \<not> reach g s t"
    by blast
  have "\<not> found"
  proof
    assume f: found
    then have iA: "inv_A g s t B st" and iB: "inv_B g s st" and fin: "g_score st t < DBL_MAX"
      using L(2) by blast+
    from reconstruct_found[OF s t iA iB fin order_refl order_refl]
    obtain es ns where R: "hd ns = s" "last ns = t" "\<forall>x \<in> set ns. 0 \<le> x \<and> x < num_nodes g"
      "path_ok g ns es"
      by blast
    have "reach g s (hd ns)" using R(1) s by (simp add: reach_start)
    from path_ok_reach[OF R(4) this R(3)] show False using r R(2) by simp
  qed
  then show ?thesis using s t h L(1) by (simp add: find_route_a_star_path_def)
qed

lemma bounded_weights_iff: "bounded_weights g t B \<longleftrightarrow> bounded_graph g t B"
proof
  assume b: "bounded_weights g t B"
  show "bounded_graph g t B"
    unfolding bounded_graph_def
  proof (intro conjI allI impI)
    show "0 \<le> B" using b by (simp add: bounded_weights_def)
  next
    fix u eid
    assume a: "0 \<le> u \<and> u < num_nodes g \<and> eid \<in> set (out_edges (nodes g u)) \<and> edge_ok g eid"
    then have "nat u \<in> set [0 ..< nat (num_nodes g)]" by simp
    then have "\<forall>eid \<in> set (out_edges (nodes g (int (nat u)))).
              edge_ok g eid \<longrightarrow> 0 \<le> weight g eid \<and> weight g eid \<le> B"
      using b unfolding bounded_weights_def by blast
    then show "0 \<le> weight g eid" "weight g eid \<le> B" using a by simp_all
  next
    fix v assume a: "0 \<le> v \<and> v < num_nodes g"
    then have "nat v \<in> set [0 ..< nat (num_nodes g)]" by simp
    then have "B * real_of_int (num_nodes g) + hval g t (int (nat v)) < DBL_MAX"
      using b unfolding bounded_weights_def by blast
    then show "B * real_of_int (num_nodes g) + hval g t v < DBL_MAX" using a by simp
  qed
next
  assume b: "bounded_graph g t B"
  show "bounded_weights g t B"
    unfolding bounded_weights_def
  proof (intro conjI ballI impI)
    show "0 \<le> B" using b by (simp add: bounded_graph_def)
  next
    fix u eid
    assume a: "u \<in> set [0 ..< nat (num_nodes g)]" "eid \<in> set (out_edges (nodes g (int u)))"
      "edge_ok g eid"
    then have "0 \<le> int u \<and> int u < num_nodes g" by auto
    then show "0 \<le> weight g eid" "weight g eid \<le> B"
      using b a(2,3) unfolding bounded_graph_def by blast+
  next
    fix u assume "u \<in> set [0 ..< nat (num_nodes g)]"
    then have "0 \<le> int u \<and> int u < num_nodes g" by auto
    then show "B * real_of_int (num_nodes g) + hval g t (int u) < DBL_MAX"
      using b unfolding bounded_graph_def by blast
  qed
qed

lemma print_ids_fits:
  "0 < snd st \<Longrightarrow> snd st = int (length (fst st)) \<Longrightarrow>
   int (length (fst st)) + int (length (ids_text xs)) < buf_sz \<Longrightarrow>
   print_ids buf_sz xs st = (fst st @ ids_text xs, snd st + int (length (ids_text xs)))"
proof (induction xs arbitrary: st)
  case Nil
  then show ?case by (simp add: ids_text_def prod_eq_iff)
next
  case (Cons x xs)
  let ?s = "CHR '' '' # show_int x"
  let ?st = "(fst st @ ?s, snd st + int (length ?s))"
  have t: "ids_text (x # xs) = ?s @ ids_text xs" by (simp add: ids_text_def)
  have fit: "int (length (fst st @ ?s)) < buf_sz" using Cons.prems(3) by (simp add: t)
  have sn: "snprintf_at buf_sz st ?s = ?st" using fit by (rule snprintf_at_fits)
  have go: "snd st > 0 \<and> snd st < buf_sz" using Cons.prems by (simp add: t)
  have "print_ids buf_sz xs ?st = (fst ?st @ ids_text xs, snd ?st + int (length (ids_text xs)))"
    using Cons.prems by (intro Cons.IH) (simp_all add: t)
  then show ?case using go by (simp add: sn t)
qed

lemma format_route_fits:
  assumes "int (length (route2_line cost ns es))
             < 64 + int (length es) * 16 + int (length ns) * 16"
  shows "format_route cost ns es = Some (route2_line cost ns es)"
proof -
  let ?B = "64 + int (length es) * 16 + int (length ns) * 16"
  let ?a = "''ROUTE2 '' @ show_fixed3 cost @ '' '' @ show_int (int (length ns))"
  let ?b = "CHR '' '' # show_int (int (length es))"
  let ?st0 = "(?a, int (length ?a))"
  let ?st1 = "(?a @ ids_text ns, int (length ?a) + int (length (ids_text ns)))"
  let ?st2 = "(?a @ ids_text ns @ ?b, int (length (?a @ ids_text ns @ ?b)))"
  let ?st3 = "(?a @ ids_text ns @ ?b @ ids_text es, int (length (?a @ ids_text ns @ ?b @ ids_text es)))"
  have L: "int (length ?a) + int (length (ids_text ns)) + int (length ?b)
       + int (length (ids_text es)) + 1 < ?B"
    using assms by (simp add: route2_line_def route2_text_def)
  have s0: "snprintf_at ?B ([], 0) ?a = ?st0"
    using L by (subst snprintf_at_fits) simp_all
  have s1: "print_ids ?B ns ?st0 = ?st1"
    using L by (subst print_ids_fits) simp_all
  have s2: "snprintf_at ?B ?st1 ?b = ?st2"
    using L by (subst snprintf_at_fits) simp_all
  have s3: "print_ids ?B es ?st2 = ?st3"
    using L by (subst print_ids_fits) simp_all
  have s4: "fst (snprintf_at ?B ?st3 [NL]) = route2_line cost ns es"
    using L by (subst snprintf_at_fits) (simp_all add: route2_line_def route2_text_def)
  have c1: "\<not> ?B \<le> snd ?st1" using L by simp
  have c3: "snd ?st3 > 0 \<and> snd ?st3 < ?B" using L by simp
  show ?thesis
    unfolding format_route_def Let_def
    by (simp only: s0 s1 s2 s3 s4 c1 c3 if_True if_False simp_thms)
qed

lemma show_int_length:
  "0 \<le> i \<Longrightarrow> 0 < k \<Longrightarrow> i < 10 ^ k \<Longrightarrow> length (show_int i) \<le> k"
proof -
  assume a: "0 \<le> i" "0 < k" "i < 10 ^ k"
  have "int (nat i) < int (10 ^ k)" using a by simp
  then have "nat i < 10 ^ k" by (simp only: of_nat_less_iff)
  then show ?thesis using a show_nat_length[of k "nat i"] by (simp add: show_int_def)
qed

lemma ids_text_length:
  "\<forall>x \<in> set xs. length (show_int x) \<le> k \<Longrightarrow> length (ids_text xs) \<le> Suc k * length xs"
  by (induction xs) (auto simp: ids_text_def)

lemma round_half_even_le: "0 \<le> x \<Longrightarrow> real (round_half_even x) \<le> x + 1"
proof -
  assume "0 \<le> x"
  then have "real (nat \<lfloor>x\<rfloor>) \<le> x" by (simp add: of_nat_nat)
  then show ?thesis by (simp only: round_half_even_def Let_def of_nat_add of_nat_1 split: if_splits) linarith
qed

lemma show_fixed3_length:
  assumes "0 \<le> r" "r < 10 ^ 40"
  shows "length (show_fixed3 r) \<le> 45"
proof -
  let ?m = "round_half_even (\<bar>r\<bar> * 1000)"
  have "real ?m \<le> r * 1000 + 1" using round_half_even_le[of "\<bar>r\<bar> * 1000"] assms(1) by simp
  also have "\<dots> < 10 ^ 40 * 1000 + 1" using assms(2) by simp
  finally have "real ?m < real (10 ^ 43 + 1)" by simp
  then have "?m < 10 ^ 43 + 1" by (simp only: of_nat_less_iff)
  then have "?m div 1000 < 10 ^ 41" by simp
  then have "length (show_nat (?m div 1000)) \<le> 41" by (intro show_nat_length) simp_all
  then show ?thesis using assms(1) by (simp add: show_fixed3_def Let_def)
qed

lemma route_line_fits:
  assumes V: "num_nodes g \<le> MAX_NODES" and E: "num_edges g \<le> 2147483647"
    and c: "0 \<le> cost" "cost < 10 ^ 40"
    and ns: "ns \<noteq> []" "\<forall>x \<in> set ns. 0 \<le> x \<and> x < num_nodes g" "distinct ns"
    and p: "path_ok g ns es"
  shows "int (length (route2_line cost ns es))
           < 64 + int (length es) * 16 + int (length ns) * 16"
proof -
  have len: "length ns = Suc (length es)" using p by (rule path_ok_length)
  have "set ns \<subseteq> {0..<num_nodes g}" using ns(2) by auto
  then have "card (set ns) \<le> card {0..<num_nodes g}" by (intro card_mono) simp_all
  then have "length ns \<le> nat (num_nodes g)" using ns(3) by (simp add: distinct_card)
  then have nl: "int (length ns) < 10 ^ 6" "int (length es) < 10 ^ 6"
    using V len by (simp_all add: MAX_NODES_def)
  have a: "length (show_int (int (length ns))) \<le> 6" "length (show_int (int (length es))) \<le> 6"
    using nl by (simp_all add: show_int_length)
  have "\<forall>x \<in> set ns. length (show_int x) \<le> 5"
  proof
    fix x assume "x \<in> set ns"
    then have "0 \<le> x" "x < 10 ^ 5" using ns(2) V by (auto simp: MAX_NODES_def)
    then show "length (show_int x) \<le> 5" by (simp add: show_int_length)
  qed
  then have b: "length (ids_text ns) \<le> 6 * length ns"
    using ids_text_length[of ns 5] by simp
  have es: "\<forall>x \<in> set es. 0 \<le> x \<and> x < num_edges g"
    using p by (induction g ns es rule: path_ok.induct) (auto simp: joins_def)
  have "\<forall>x \<in> set es. length (show_int x) \<le> 10"
  proof
    fix x assume "x \<in> set es"
    then have "0 \<le> x" "x < 10 ^ 10" using es E by auto
    then show "length (show_int x) \<le> 10" by (simp add: show_int_length)
  qed
  then have d: "length (ids_text es) \<le> 11 * length es"
    using ids_text_length[of es 10] by simp
  have f: "length (show_fixed3 cost) \<le> 45" using c by (rule show_fixed3_length)
  show ?thesis using a b d f len by (simp add: route2_line_def route2_text_def)
qed

lemmas run_simps = find_route_a_star_path_def heuristic_def Let_def
  astar_start_def astar_init_def decreaseKey_def decreaseKey_loop.simps
  astar_loop.simps isEmpty_def extractMin_def minHeapify.simps smallest_of_def exchange_def
  relax_edge_def get_edge_weight_def isInMinHeap_def reconstruct_def find_edge_id_def
  add_f_def INFINITY_def DBL_MAX_def eval_nat_numeral

lemma one_way_graph_simps:
  "num_nodes one_way_graph = 2" "num_edges one_way_graph = 1"
  "out_edges (nodes one_way_graph 0) = [0]" "out_edges (nodes one_way_graph 1) = []"
  "to_node (edges one_way_graph 0) = 1"
  "current_travel_time (edges one_way_graph 0) = 4"
  "node_x (nodes one_way_graph 0) = 0" "node_y (nodes one_way_graph 0) = 0"
  "node_x (nodes one_way_graph 1) = 0" "node_y (nodes one_way_graph 1) = 0"
  by (simp_all add: one_way_graph_def build_graph_def graph_init_def MAX_NODES_def
      graph_set_node_coordinates_def graph_add_edge_def zero_graph_def zero_edge_def)

lemma sentinel_graph_simps:
  "num_nodes sentinel_graph = 2" "num_edges sentinel_graph = 1"
  "out_edges (nodes sentinel_graph 0) = [0]" "out_edges (nodes sentinel_graph 1) = []"
  "to_node (edges sentinel_graph 0) = 1"
  "current_travel_time (edges sentinel_graph 0) = DBL_MAX"
  "node_x (nodes sentinel_graph 0) = 0" "node_y (nodes sentinel_graph 0) = 0"
  "node_x (nodes sentinel_graph 1) = 0" "node_y (nodes sentinel_graph 1) = 0"
  by (simp_all add: sentinel_graph_def build_graph_def graph_init_def MAX_NODES_def
      graph_set_node_coordinates_def graph_add_edge_def zero_graph_def zero_edge_def)

lemma one_way_route: "find_route_a_star_path one_way_graph 0 1 2 2 = Route 4 [0] [0, 1]"
  by (simp add: run_simps one_way_graph_simps)

lemma one_way_no_route: "find_route_a_star_path one_way_graph 1 0 2 2 = Rc 1"
  by (simp add: run_simps one_way_graph_simps)

lemma sentinel_no_route: "find_route_a_star_path sentinel_graph 0 1 2 2 = Rc 1"
  by (simp add: run_simps sentinel_graph_simps)

lemma one_way_bounded: "bounded_weights one_way_graph 0 4" "bounded_weights one_way_graph 1 4"
  by (simp_all add: bounded_weights_def one_way_graph_simps edge_ok_def weight_def hval_def
      heuristic_def Let_def DBL_MAX_def INFINITY_def eval_nat_numeral upt_rec)

lemma one_way_reach: "reach one_way_graph 0 1"
proof -
  have "reach one_way_graph 0 0" by (rule reach_start) (simp_all add: one_way_graph_simps)
  then have "reach one_way_graph 0 (to_node (edges one_way_graph 0))"
    by (rule reach_step) (simp_all add: one_way_graph_simps edge_ok_def)
  then show ?thesis by (simp add: one_way_graph_simps)
qed

lemma one_way_line: "route2_line 4 [0, 1] [0] = ''ROUTE2 4.000 2 0 1 1 0'' @ [NL]"
  by (simp add: route2_line_def route2_text_def ids_text_def show_fixed3_def show_int_def show_nat_digit
      digit_char_def round_half_even_def Let_def)

section \<open>The response to a route request\<close>

lemma route2_line_other:
  "route2_text ctext ns es \<noteq> ''ERR BAD_NODES'' @ [NL]"
  "route2_text ctext ns es \<noteq> ''ERR NO_ROUTE'' @ [NL]"
  by (simp_all add: route2_text_def)

text \<open>The response to a route request on a graph with bounded weights.\<close>

lemma build_route_response_cases:
  assumes "bounded_weights g dst B" "B * real_of_int (num_nodes g) < 10 ^ 40"
    and "num_nodes g \<le> MAX_NODES" "num_edges g \<le> 2147483647"
  shows "\<exists>resp. build_route_response g src dst = Some resp
     \<and> (resp = ''ERR BAD_NODES'' @ [NL]
            \<longleftrightarrow> src < 0 \<or> num_nodes g \<le> src \<or> dst < 0 \<or> num_nodes g \<le> dst)
     \<and> (0 \<le> src \<and> src < num_nodes g \<and> 0 \<le> dst \<and> dst < num_nodes g \<longrightarrow>
          (resp = ''ERR NO_ROUTE'' @ [NL] \<longleftrightarrow> \<not> reach g src dst)
          \<and> (reach g src dst \<longrightarrow>
               (\<exists>ctext cost es ns.
                  find_route_a_star_path g src dst (num_nodes g) (num_nodes g) = Route cost es ns
                  \<and> resp = route2_text ctext ns es)))"
proof (cases "src < 0 \<or> num_nodes g \<le> src \<or> dst < 0 \<or> num_nodes g \<le> dst")
  case True
  then have "build_route_response g src dst = Some (''ERR BAD_NODES'' @ [NL])"
    by (auto simp: build_route_response_def)
  then show ?thesis using True by auto
next
  case False
  then have s: "0 \<le> src" "src < num_nodes g" and t: "0 \<le> dst" "dst < num_nodes g" by auto
  have bg: "bounded_graph g dst B" using assms(1) by (simp only: bounded_weights_iff)
  let ?V = "num_nodes g"
  have me: "(if ?V > 0 then ?V else 1) = ?V" using s by simp
  show ?thesis
  proof (cases "reach g src dst")
    case r: False
    have "find_route_a_star_path g src dst ?V ?V = Rc 1"
      using s t bg r by (rule find_route_unreachable)
    then have b: "build_route_response g src dst = Some (''ERR NO_ROUTE'' @ [NL])"
      using s t by (simp add: build_route_response_def Let_def)
    show ?thesis
      by (rule exI[of _ "''ERR NO_ROUTE'' @ [NL]"]) (use b r s t in simp)
  next
    case r: True
    have room: "?V \<le> ?V" "?V - 1 \<le> ?V" by simp_all
    from find_route_reachable[OF s t bg room r]
    obtain cost es ns where R: "find_route_a_star_path g src dst ?V ?V = Route cost es ns"
      "hd ns = src" "last ns = dst" "distinct ns" "\<forall>x \<in> set ns. 0 \<le> x \<and> x < ?V"
      "path_ok g ns es" "0 \<le> cost" "cost \<le> B * real_of_int ?V"
      by blast
    have ne: "ns \<noteq> []" using R(6) by (cases ns) auto
    have c40: "cost < 10 ^ 40" using R(8) assms(2) by linarith
    have fits: "int (length (route2_line cost ns es))
           < 64 + int (length es) * 16 + int (length ns) * 16"
      using assms(3,4) R(7) c40 ne R(5) R(4) R(6) by (rule route_line_fits)
    have f: "format_route cost ns es = Some (route2_line cost ns es)"
      using fits by (rule format_route_fits)
    have len: "length ns = Suc (length es)" using R(6) by (rule path_ok_length)
    have "set ns \<subseteq> {0..<?V}" using R(5) by auto
    then have "card (set ns) \<le> card {0..<?V}" by (intro card_mono) simp_all
    then have nl: "length ns \<le> nat ?V" using R(4) by (simp add: distinct_card)
    have nc: "\<not> int (length ns) > ?V" "\<not> int (length es) > ?V" using nl len s by linarith+
    have b: "build_route_response g src dst = Some (route2_text (show_fixed3 cost) ns es)"
      using s t nc by (simp add: build_route_response_def me R(1) f Let_def route2_line_def)
    have x: "\<exists>ctext cost' es' ns'.
        find_route_a_star_path g src dst ?V ?V = Route cost' es' ns'
        \<and> route2_text (show_fixed3 cost) ns es = route2_text ctext ns' es'"
      using R(1) by blast
    let ?r = "route2_text (show_fixed3 cost) ns es"
    have o: "?r \<noteq> ''ERR BAD_NODES'' @ [NL]" "?r \<noteq> ''ERR NO_ROUTE'' @ [NL]"
      by (rule route2_line_other)+
    have c1: "?r = ''ERR BAD_NODES'' @ [NL]
            \<longleftrightarrow> src < 0 \<or> num_nodes g \<le> src \<or> dst < 0 \<or> num_nodes g \<le> dst"
      using o(1) False by (simp only: simp_thms)
    have c2: "?r = ''ERR NO_ROUTE'' @ [NL] \<longleftrightarrow> \<not> reach g src dst"
      using o(2) r by (simp only: simp_thms)
    show ?thesis
      by (rule exI[of _ ?r]) (intro conjI impI b c1 c2 x)
  qed
qed

text \<open>A round of the handler's loop that sends a response goes on with the next input.\<close>

lemma client_thread_main_routing:
  assumes "dispatch_line scan_lf buf = Routing (TASK_REQ src dst)"
    and "build_route_response g src dst = Some resp"
  shows "client_thread_main scan_lf g (Some buf # rest)
           = (resp # fst (client_thread_main scan_lf g rest),
              snd (client_thread_main scan_lf g rest))"
proof -
  have "trim_crlf buf \<noteq> []"
    using assms(1) by (auto simp: dispatch_line_def Let_def split: if_splits)
  then have ne: "buf \<noteq> []" by (auto simp: trim_crlf_def c_str_def)
  have "serve_line scan_lf g buf = (Some resp, g)"
    using assms by (simp add: serve_line_def run_task_def)
  then show ?thesis using ne by (simp split: prod.splits)
qed

text \<open>
  Claim C6, as amended.  For a received line that the handler dispatches as the routing
  task with \<open>src\<close> and \<open>dst\<close>, on a graph of at most \<^verbatim>\<open>MAX_NODES\<close> nodes, with edge ids that fit
  an \<^verbatim>\<open>int\<close>, and with bounded weights (every edge the search follows has a weight between 0
  and \<open>B\<close>, \<open>B * num_nodes\<close> is below \<open>10^40\<close>, and \<open>B * num_nodes\<close> plus the heuristic value of
  any node towards \<open>dst\<close> is below \<^verbatim>\<open>DBL_MAX\<close>): a response is sent and the loop of the handler
  goes on with the next input on the same graph, so the connection stays open.  The
  response is \<^verbatim>\<open>ERR BAD_NODES\<close> exactly when \<open>src\<close> or \<open>dst\<close> is outside \<open>[0, num_nodes)\<close>; for
  ids in range it is \<^verbatim>\<open>ERR NO_ROUTE\<close> exactly when \<open>dst\<close> cannot be reached from \<open>src\<close> along
  the adjacency lists; and when \<open>dst\<close> can be reached it is a \<^verbatim>\<open>ROUTE2\<close> line with a text for
  the cost, the node path and the edge path of the route that the search returns.
\<close>

theorem route_response_cases:
  assumes "bounded_weights g dst B" "B * real_of_int (num_nodes g) < 10 ^ 40"
    and "num_nodes g \<le> MAX_NODES" "num_edges g \<le> 2147483647"
    and "dispatch_line scan_lf buf = Routing (TASK_REQ src dst)"
  shows "\<exists>resp. build_route_response g src dst = Some resp
     \<and> client_thread_main scan_lf g (Some buf # rest)
           = (resp # fst (client_thread_main scan_lf g rest),
              snd (client_thread_main scan_lf g rest))
     \<and> (resp = ''ERR BAD_NODES'' @ [NL]
            \<longleftrightarrow> src < 0 \<or> num_nodes g \<le> src \<or> dst < 0 \<or> num_nodes g \<le> dst)
     \<and> (0 \<le> src \<and> src < num_nodes g \<and> 0 \<le> dst \<and> dst < num_nodes g \<longrightarrow>
          (resp = ''ERR NO_ROUTE'' @ [NL] \<longleftrightarrow> \<not> reach g src dst)
          \<and> (reach g src dst \<longrightarrow>
               (\<exists>ctext cost es ns.
                  find_route_a_star_path g src dst (num_nodes g) (num_nodes g) = Route cost es ns
                  \<and> resp = route2_text ctext ns es)))"
proof -
  from build_route_response_cases[OF assms(1-4), of src]
  obtain resp where R: "build_route_response g src dst = Some resp"
    "resp = ''ERR BAD_NODES'' @ [NL]
            \<longleftrightarrow> src < 0 \<or> num_nodes g \<le> src \<or> dst < 0 \<or> num_nodes g \<le> dst"
    "0 \<le> src \<and> src < num_nodes g \<and> 0 \<le> dst \<and> dst < num_nodes g \<longrightarrow>
          (resp = ''ERR NO_ROUTE'' @ [NL] \<longleftrightarrow> \<not> reach g src dst)
          \<and> (reach g src dst \<longrightarrow>
               (\<exists>ctext cost es ns.
                  find_route_a_star_path g src dst (num_nodes g) (num_nodes g) = Route cost es ns
                  \<and> resp = route2_text ctext ns es))"
    by blast
  note L = client_thread_main_routing[OF assms(5) R(1), of rest]
  show ?thesis
    by (rule exI[of _ resp]) (intro conjI R L)
qed

lemma far_apart_graph_simps:
  "num_nodes far_apart_graph = 2" "num_edges far_apart_graph = 1"
  "out_edges (nodes far_apart_graph 1) = [0]" "out_edges (nodes far_apart_graph 0) = []"
  "to_node (edges far_apart_graph 0) = 0"
  "current_travel_time (edges far_apart_graph 0) = 1"
  "base_speed_limit (edges far_apart_graph 0) = 1"
  "node_x (nodes far_apart_graph 0) = 0" "node_y (nodes far_apart_graph 0) = 0"
  "node_x (nodes far_apart_graph 1) = 10 ^ 200" "node_y (nodes far_apart_graph 1) = 0"
  by (simp_all add: far_apart_graph_def build_graph_def graph_init_def MAX_NODES_def
      graph_set_node_coordinates_def graph_add_edge_def zero_graph_def zero_edge_def)

lemma far_apart_no_route: "find_route_a_star_path far_apart_graph 1 0 2 2 = Rc 1"
  by (simp add: run_simps far_apart_graph_simps)

lemma one_way_responses:
  "build_route_response one_way_graph 2 0 = Some (''ERR BAD_NODES'' @ [NL])"
  "build_route_response one_way_graph 1 0 = Some (''ERR NO_ROUTE'' @ [NL])"
  "build_route_response one_way_graph 0 1 = Some (''ROUTE2 4.000 2 0 1 1 0'' @ [NL])"
proof -
  show "build_route_response one_way_graph 2 0 = Some (''ERR BAD_NODES'' @ [NL])"
    by (simp add: build_route_response_def one_way_graph_simps)
  show "build_route_response one_way_graph 1 0 = Some (''ERR NO_ROUTE'' @ [NL])"
    by (simp add: build_route_response_def one_way_graph_simps one_way_no_route)
  have "int (length (route2_line 4 [0, 1] [0])) < 64 + int (length [0::int]) * 16
      + int (length [0::int, 1]) * 16"
    by (simp only: one_way_line) simp
  then have "format_route 4 [0, 1] [0] = Some (route2_line 4 [0, 1] [0])"
    by (rule format_route_fits)
  then show "build_route_response one_way_graph 0 1 = Some (''ROUTE2 4.000 2 0 1 1 0'' @ [NL])"
    by (simp add: build_route_response_def one_way_graph_simps one_way_route one_way_line)
qed

lemma req_lines:
  "dispatch_line digits_lf (''REQ 2 0'' @ [NL]) = Routing (TASK_REQ 2 0)"
  "dispatch_line digits_lf (''REQ 1 0'' @ [NL]) = Routing (TASK_REQ 1 0)"
  "dispatch_line digits_lf (''REQ 0 1'' @ [NL]) = Routing (TASK_REQ 0 1)"
  by (simp_all add: dispatch_line_def trim_crlf_def c_str_def NL_def CR_def Let_def
      scan_REQ_def scan_literal_def skip_space_def is_space_def scan_d_def
      is_digit_def digits_val_def digit_val_def c_int_def)

theorem route_response_cases_witness:
  "bounded_weights one_way_graph 0 4 \<and> bounded_weights one_way_graph 1 4
   \<and> num_nodes one_way_graph = 2 \<and> num_edges one_way_graph = 1
   \<and> dispatch_line digits_lf (''REQ 1 0'' @ [NL]) = Routing (TASK_REQ 1 0)
   \<and> \<not> reach one_way_graph 1 0
   \<and> reach one_way_graph 0 1
   \<and> find_route_a_star_path one_way_graph 0 1 2 2 = Route 4 [0] [0, 1]
   \<and> client_thread_main digits_lf one_way_graph
         [Some (''REQ 2 0'' @ [NL]), Some (''REQ 1 0'' @ [NL]), Some (''REQ 0 1'' @ [NL])]
       = ([''ERR BAD_NODES'' @ [NL], ''ERR NO_ROUTE'' @ [NL], ''ROUTE2 4.000 2 0 1 1 0'' @ [NL]],
          one_way_graph, Waiting)"
proof -
  note T = route_response_cases[of one_way_graph 0 4 digits_lf "''REQ 1 0'' @ [NL]" 1 "[]"]
  have nr: "\<not> reach one_way_graph 1 0"
    using T one_way_bounded one_way_responses(2) req_lines(2)
    by (simp add: one_way_graph_simps MAX_NODES_def)
  have loop: "client_thread_main digits_lf one_way_graph
         [Some (''REQ 2 0'' @ [NL]), Some (''REQ 1 0'' @ [NL]), Some (''REQ 0 1'' @ [NL])]
       = ([''ERR BAD_NODES'' @ [NL], ''ERR NO_ROUTE'' @ [NL], ''ROUTE2 4.000 2 0 1 1 0'' @ [NL]],
          one_way_graph, Waiting)"
    by (simp add: serve_line_def req_lines run_task_def one_way_responses del: append.simps)
  show ?thesis
    using nr loop one_way_bounded one_way_reach one_way_route req_lines(2)
    by (simp only: one_way_graph_simps simp_thms)
qed

text \<open>
  Claim C6 as stated fails.  In the graph with the one edge of weight \<^verbatim>\<open>DBL_MAX\<close> from node 0
  to node 1, node 1 can be reached from node 0 and the response is \<^verbatim>\<open>ERR NO_ROUTE\<close>: a
  tentative cost that is not below \<^verbatim>\<open>DBL_MAX\<close> is no improvement.  In the graph with the edge
  of weight 1 from node 1 at \<open>(10^200, 0)\<close> to node 0 at \<open>(0, 0)\<close>, node 0 can be reached from
  node 1 and the response is \<^verbatim>\<open>ERR NO_ROUTE\<close>: the heuristic of the start node overflows, its
  key in the heap is \<open>+inf\<close>, and the first node extracted has the key \<^verbatim>\<open>DBL_MAX\<close>.
\<close>

theorem route_response_counterexample:
  "num_nodes sentinel_graph = 2 \<and> out_edges (nodes sentinel_graph 0) = [0]
   \<and> to_node (edges sentinel_graph 0) = 1
   \<and> current_travel_time (edges sentinel_graph 0) = DBL_MAX
   \<and> reach sentinel_graph 0 1
   \<and> build_route_response sentinel_graph 0 1 = Some (''ERR NO_ROUTE'' @ [NL])
   \<and> num_nodes far_apart_graph = 2 \<and> out_edges (nodes far_apart_graph 1) = [0]
   \<and> to_node (edges far_apart_graph 0) = 0
   \<and> current_travel_time (edges far_apart_graph 0) = 1
   \<and> heuristic far_apart_graph 1 0 = Some INFINITY
   \<and> reach far_apart_graph 1 0
   \<and> build_route_response far_apart_graph 1 0 = Some (''ERR NO_ROUTE'' @ [NL])"
proof -
  have "reach sentinel_graph 0 0" by (rule reach_start) (simp_all add: sentinel_graph_simps)
  then have "reach sentinel_graph 0 (to_node (edges sentinel_graph 0))"
    by (rule reach_step) (simp_all add: sentinel_graph_simps edge_ok_def)
  then have r: "reach sentinel_graph 0 1" by (simp add: sentinel_graph_simps)
  have "reach far_apart_graph 1 1" by (rule reach_start) (simp_all add: far_apart_graph_simps)
  then have "reach far_apart_graph 1 (to_node (edges far_apart_graph 0))"
    by (rule reach_step) (simp_all add: far_apart_graph_simps edge_ok_def)
  then have r2: "reach far_apart_graph 1 0" by (simp add: far_apart_graph_simps)
  have h: "heuristic far_apart_graph 1 0 = Some INFINITY"
    by (simp add: heuristic_def far_apart_graph_simps Let_def DBL_MAX_def)
  have b1: "build_route_response sentinel_graph 0 1 = Some (''ERR NO_ROUTE'' @ [NL])"
    by (simp add: sentinel_graph_simps build_route_response_def sentinel_no_route)
  have b2: "build_route_response far_apart_graph 1 0 = Some (''ERR NO_ROUTE'' @ [NL])"
    by (simp add: far_apart_graph_simps build_route_response_def far_apart_no_route)
  show ?thesis
    using r r2 h b1 b2 by (simp only: sentinel_graph_simps far_apart_graph_simps simp_thms)
qed

section \<open>The route that the search returns\<close>

lemma sqrt_9: "sqrt 9 = 3"
  using real_sqrt_abs[of 3] by simp

lemma sqrt_25: "sqrt 25 = 5"
  using real_sqrt_abs[of 5] by simp

lemma detour_graph_simps:
  "num_nodes detour_graph = 3" "num_edges detour_graph = 3"
  "out_edges (nodes detour_graph 0) = [1, 0]" "out_edges (nodes detour_graph 1) = [2]"
  "out_edges (nodes detour_graph 2) = []"
  "to_node (edges detour_graph 0) = 2" "to_node (edges detour_graph 1) = 1"
  "to_node (edges detour_graph 2) = 2"
  "current_travel_time (edges detour_graph 0) = 3"
  "current_travel_time (edges detour_graph 1) = 1 / 2"
  "current_travel_time (edges detour_graph 2) = 5 / 8"
  "base_speed_limit (edges detour_graph 0) = 1" "base_speed_limit (edges detour_graph 1) = 1"
  "base_speed_limit (edges detour_graph 2) = 1"
  "node_x (nodes detour_graph 0) = 0" "node_y (nodes detour_graph 0) = 0"
  "node_x (nodes detour_graph 1) = 4" "node_y (nodes detour_graph 1) = 0"
  "node_x (nodes detour_graph 2) = 0" "node_y (nodes detour_graph 2) = 3"
  by (simp_all add: detour_graph_def build_graph_def graph_init_def MAX_NODES_def
      graph_set_node_coordinates_def graph_add_edge_def zero_graph_def zero_edge_def
      apply_update_def min_speed_def Let_def)

lemma detour_heuristic:
  "heuristic detour_graph 0 2 = Some 3" "heuristic detour_graph 1 2 = Some 5"
  "heuristic detour_graph 2 2 = Some 0"
  by (simp_all add: heuristic_def detour_graph_simps Let_def eval_nat_numeral sqrt_9 sqrt_25
      DBL_MAX_def INFINITY_def)

lemma detour_route: "find_route_a_star_path detour_graph 0 2 3 3 = Route 3 [0] [0, 2]"
  by (simp add: find_route_a_star_path_def detour_heuristic Let_def
     astar_start_def astar_init_def decreaseKey_def decreaseKey_loop.simps
     astar_loop.simps isEmpty_def extractMin_def minHeapify.simps smallest_of_def exchange_def
     relax_edge_def get_edge_weight_def isInMinHeap_def reconstruct_def find_edge_id_def
     add_f_def INFINITY_def DBL_MAX_def eval_nat_numeral detour_graph_simps)



















text \<open>
  Claim C1.  The search does not return the cost of a shortest path when the heuristic
  overestimates.  Nodes 0, 1, 2 at \<open>(0, 0)\<close>, \<open>(4, 0)\<close>, \<open>(0, 3)\<close>; edges 0 from node 0 to node 2
  of length 3, 1 from node 0 to node 1 of length 4, 2 from node 1 to node 2 of length 5, all
  with the speed limit 1; after \<^verbatim>\<open>UPD 1 8\<close> and \<^verbatim>\<open>UPD 2 8\<close> the edges 1 and 2 have the weights
  \<open>1/2\<close> and \<open>5/8\<close>.  The way from node 0 to node 2 over node 1 costs \<open>9/8\<close>; the heuristic of
  node 1 is 5, and the search from node 0 to node 2 returns the cost 3 with the edge 0.
\<close>

theorem search_misses_shortest:
  "out_edges (nodes detour_graph 0) = [1, 0] \<and> out_edges (nodes detour_graph 1) = [2]
   \<and> to_node (edges detour_graph 0) = 2 \<and> to_node (edges detour_graph 1) = 1
   \<and> to_node (edges detour_graph 2) = 2
   \<and> current_travel_time (edges detour_graph 0) = 3
   \<and> current_travel_time (edges detour_graph 1) = 1 / 2
   \<and> current_travel_time (edges detour_graph 2) = 5 / 8
   \<and> walk_cost detour_graph [1, 2] = 9 / 8
   \<and> heuristic detour_graph 1 2 = Some 5
   \<and> find_route_a_star_path detour_graph 0 2 3 3 = Route 3 [0] [0, 2]"
  by (simp add: detour_graph_simps detour_route detour_heuristic walk_cost_def weight_def)

end
